theory Spec2Isabelle
  imports Complex_Main "HOL-Library.Word" "HOL-Library.Multiset"
begin

unbundle bit_operations_syntax

chapter \<open>The IBM MFM track codec of greaseweazle (codec/ibm/mfm.py)\<close>

text \<open>
  The theory has two parts. The first embeds the functions of \<^verbatim>\<open>mfm.py\<close> as HOL
  functions, in the order of the source. The second proves the properties of the
  specification about them.

  Conventions of the embedding.
  \<^item> A Python \<^verbatim>\<open>bytes\<close> or \<^verbatim>\<open>bytearray\<close> value is a list of 8-bit words; reading an
    element as a Python integer is \<open>unat\<close> or \<open>uint\<close>.
  \<^item> Python integers used in bit arithmetic are \<open>nat\<close> where they cannot be negative
    and \<open>int\<close> where the source applies \<^verbatim>\<open>~\<close> or subtracts.
  \<^item> An exception is a value \<open>Inl e\<close> of a sum type.
\<close>

section \<open>Model\<close>

subsection \<open>Bytes and exceptions\<close>

type_synonym byte = "8 word"

datatype py_error =
  StructError | IndexError | ValueError | StopIteration | ZeroDivisionError | AttributeError

subsection \<open>Modulation tables (module level, lines 354 to 374)\<close>

text \<open>
  \<^verbatim>\<open>encode_list\<close>: for each \<^verbatim>\<open>x\<close> in \<^verbatim>\<open>range(256)\<close> the loop
  \<^verbatim>\<open>for i in range(8): y <<= 2; y |= (x >> (7-i)) & 1\<close> starting from \<^verbatim>\<open>y = 0\<close>.
  \<open>encode_step x i\<close> is one pass of the loop body.
\<close>

definition encode_step :: "nat \<Rightarrow> nat \<Rightarrow> nat \<Rightarrow> nat" where
  "encode_step x i y = push_bit 2 y OR (drop_bit (7 - i) x AND 1)"

definition encode_entry :: "nat \<Rightarrow> nat" where
  "encode_entry x = fold (encode_step x) [0..<8] 0"

definition encode_list :: "nat list" where
  "encode_list = map encode_entry [0..<256]"

text \<open>
  \<^verbatim>\<open>decode_list\<close>: for each \<^verbatim>\<open>x\<close> in \<^verbatim>\<open>range(0x5555+1)\<close> the loop
  \<^verbatim>\<open>for i in range(16): if x&(1<<(i*2)): y |= 1<<i\<close>. The table is a \<^verbatim>\<open>bytearray\<close>,
  so each entry is stored as a byte; lemma \<open>decode_entry_lt\<close> below shows that every
  entry is below 256, so that \<^verbatim>\<open>append\<close> accepts it and \<open>word_of_nat\<close> loses nothing.
\<close>

definition decode_step :: "nat \<Rightarrow> nat \<Rightarrow> nat \<Rightarrow> nat" where
  "decode_step x i y = (if x AND push_bit (i * 2) 1 \<noteq> 0 then y OR push_bit i 1 else y)"

definition decode_entry :: "nat \<Rightarrow> nat" where
  "decode_entry x = fold (decode_step x) [0..<16] 0"

definition decode_list :: "byte list" where
  "decode_list = map (\<lambda>x. word_of_nat (decode_entry x)) [0..<0x5555 + 1]"

subsection \<open>encode, decode and mfm\_encode (lines 343 to 380)\<close>

text \<open>
  \<^verbatim>\<open>struct.pack('>H', v)\<close>: the two bytes of \<^verbatim>\<open>v\<close>, the high one first; it raises
  \<^verbatim>\<open>struct.error\<close> unless \<^verbatim>\<open>0 <= v <= 65535\<close>.
\<close>

definition pack_H :: "nat \<Rightarrow> py_error + byte list" where
  "pack_H v = (if v < 65536 then Inr [word_of_nat (drop_bit 8 v), word_of_nat (v AND 255)]
               else Inl StructError)"

text \<open>\<^verbatim>\<open>encode\<close>: \<^verbatim>\<open>for x in dat: out += struct.pack('>H', encode_list[x])\<close>.\<close>

fun encode :: "byte list \<Rightarrow> py_error + byte list" where
  "encode [] = Inr []"
| "encode (x # dat) =
     (case pack_H (encode_list ! unat x) of
        Inl e \<Rightarrow> Inl e
      | Inr p \<Rightarrow> (case encode dat of Inl e \<Rightarrow> Inl e | Inr out \<Rightarrow> Inr (p @ out)))"

text \<open>
  \<open>stride2 dat\<close> is the slice \<^verbatim>\<open>dat[::2]\<close>, and \<open>stride2 (drop 1 dat)\<close> is
  \<^verbatim>\<open>dat[1::2]\<close>. \<^verbatim>\<open>decode\<close> zips the two slices (\<^verbatim>\<open>zip\<close> stops at the shorter one) and
  looks \<^verbatim>\<open>((x<<8)|y)&0x5555\<close> up in \<^verbatim>\<open>decode_list\<close>. The index is at most
  \<^verbatim>\<open>0x5555\<close>, the last index of the table (lemma \<open>and_nat_le2\<close>).
\<close>

fun stride2 :: "'a list \<Rightarrow> 'a list" where
  "stride2 [] = []"
| "stride2 [x] = [x]"
| "stride2 (x # y # xs) = x # stride2 xs"

definition decode_pair :: "byte \<Rightarrow> byte \<Rightarrow> byte" where
  "decode_pair x y = decode_list ! ((push_bit 8 (unat x) OR unat y) AND 0x5555)"

definition decode :: "byte list \<Rightarrow> byte list" where
  "decode dat = map (\<lambda>(x, y). decode_pair x y) (zip (stride2 dat) (stride2 (drop 1 dat)))"

text \<open>
  \<^verbatim>\<open>mfm_encode\<close>: \<open>mfm_step y0 x\<close> is the loop body up to \<^verbatim>\<open>y &= 255\<close>, with
  \<open>y0\<close> the value of \<^verbatim>\<open>y\<close> left by the previous pass. The value appended to
  \<^verbatim>\<open>out\<close> is between 0 and 255 because of the final mask.
\<close>

definition mfm_step :: "int \<Rightarrow> byte \<Rightarrow> int" where
  "mfm_step y0 x =
     (let y1 = push_bit 8 y0 OR uint x;
          y2 = (if uint x AND 0xaa = 0
                then y1 OR (NOT (drop_bit 1 y1 OR push_bit 1 y1) AND 0xaaaa)
                else y1)
      in y2 AND 255)"

fun mfm_encode_loop :: "int \<Rightarrow> byte list \<Rightarrow> byte list" where
  "mfm_encode_loop y [] = []"
| "mfm_encode_loop y (x # dat) =
     (let y' = mfm_step y x in word_of_int y' # mfm_encode_loop y' dat)"

definition mfm_encode :: "byte list \<Rightarrow> byte list" where
  "mfm_encode dat = mfm_encode_loop 0 dat"


subsection \<open>Areas of a track\<close>

text \<open>
  Modelled from the spec: the classes \<^verbatim>\<open>IAM\<close>, \<^verbatim>\<open>IDAM\<close>, \<^verbatim>\<open>DAM\<close>, \<^verbatim>\<open>Sector\<close> and
  \<^verbatim>\<open>IBMTrack\<close> are imported by \<^verbatim>\<open>mfm.py\<close> from \<^verbatim>\<open>.ibm\<close>, which is not among the
  sources. The records follow the data model of the specification (section 3) and the
  way \<^verbatim>\<open>mfm.py\<close> constructs and reads the objects: every area has a \<^verbatim>\<open>start\<close> and an
  \<^verbatim>\<open>end\<close> bit offset; ID fields, data fields and sectors have a \<^verbatim>\<open>crc\<close>, zero
  meaning valid; a sector is built from an ID
  field and a data field, starts where its ID field starts, ends where its data field
  ends, and its \<^verbatim>\<open>crc\<close> is zero exactly when both fields' are (the bitwise or of the
  two). Field names: the attributes of a sector keep their names, \<^verbatim>\<open>end\<close> being
  \<open>end_pos\<close>; those of the other classes carry the class as a prefix
  (\<^verbatim>\<open>s.idam.crc\<close> is \<open>idam_crc (idam s)\<close>, \<^verbatim>\<open>s.idam.n\<close> is \<open>idam_n (idam s)\<close>), except
  \<^verbatim>\<open>mark\<close> and \<^verbatim>\<open>data\<close> of a data field. A data field built without \<^verbatim>\<open>data\<close> has the
  empty list.
  Areas are values: the model has no sharing of one ID or data field between two
  sectors, and \<^verbatim>\<open>mfm.py\<close> creates none.
\<close>

record IAM =
  iam_start :: int
  iam_end :: int

record IDAM =
  idam_start :: int
  idam_end :: int
  idam_crc :: nat
  idam_c :: int
  idam_h :: int
  idam_r :: int
  idam_n :: nat

record DAM =
  dam_start :: int
  dam_end :: int
  dam_crc :: nat
  mark :: byte
  data :: "byte list"

record Sector =
  start :: int
  end_pos :: int
  crc :: nat
  idam :: IDAM
  dam :: DAM

text \<open>The constructor calls \<^verbatim>\<open>IAM(...)\<close>, \<^verbatim>\<open>IDAM(...)\<close>, \<^verbatim>\<open>DAM(...)\<close> and \<^verbatim>\<open>Sector(idam, dam)\<close>.\<close>

definition new_IAM :: "int \<Rightarrow> int \<Rightarrow> IAM" where
  "new_IAM s e = \<lparr>iam_start = s, iam_end = e\<rparr>"

definition new_IDAM :: "int \<Rightarrow> int \<Rightarrow> nat \<Rightarrow> int \<Rightarrow> int \<Rightarrow> int \<Rightarrow> nat \<Rightarrow> IDAM" where
  "new_IDAM s e k c h r n =
     \<lparr>idam_start = s, idam_end = e, idam_crc = k, idam_c = c, idam_h = h, idam_r = r, idam_n = n\<rparr>"

definition new_DAM :: "int \<Rightarrow> int \<Rightarrow> nat \<Rightarrow> byte \<Rightarrow> byte list \<Rightarrow> DAM" where
  "new_DAM s e k m d = \<lparr>dam_start = s, dam_end = e, dam_crc = k, mark = m, data = d\<rparr>"

definition new_Sector :: "IDAM \<Rightarrow> DAM \<Rightarrow> Sector" where
  "new_Sector i d =
     \<lparr>start = idam_start i, end_pos = dam_end d, crc = idam_crc i OR dam_crc d, idam = i, dam = d\<rparr>"

text \<open>
  \<^verbatim>\<open>a.delta(p)\<close> re-expresses the offsets of an area relative to \<open>p\<close>; for a sector
  also those of its two fields (specification, section 4.3, step 4).
\<close>

definition delta_IAM :: "int \<Rightarrow> IAM \<Rightarrow> IAM" where
  "delta_IAM p a = a\<lparr>iam_start := iam_start a - p, iam_end := iam_end a - p\<rparr>"

definition delta_IDAM :: "int \<Rightarrow> IDAM \<Rightarrow> IDAM" where
  "delta_IDAM p a = a\<lparr>idam_start := idam_start a - p, idam_end := idam_end a - p\<rparr>"

definition delta_DAM :: "int \<Rightarrow> DAM \<Rightarrow> DAM" where
  "delta_DAM p a = a\<lparr>dam_start := dam_start a - p, dam_end := dam_end a - p\<rparr>"

definition delta_Sector :: "int \<Rightarrow> Sector \<Rightarrow> Sector" where
  "delta_Sector p s =
     s\<lparr>start := start s - p, end_pos := end_pos s - p,
       idam := delta_IDAM p (idam s), dam := delta_DAM p (dam s)\<rparr>"

text \<open>The list \<^verbatim>\<open>areas\<close> of \<^verbatim>\<open>decode_raw\<close> holds objects of the four classes.\<close>

datatype area = Area_IAM IAM | Area_IDAM IDAM | Area_DAM DAM | Area_Sector Sector

fun area_start :: "area \<Rightarrow> int" where
  "area_start (Area_IAM a) = iam_start a"
| "area_start (Area_IDAM a) = idam_start a"
| "area_start (Area_DAM a) = dam_start a"
| "area_start (Area_Sector a) = start a"

fun area_delta :: "int \<Rightarrow> area \<Rightarrow> area" where
  "area_delta p (Area_IAM a) = Area_IAM (delta_IAM p a)"
| "area_delta p (Area_IDAM a) = Area_IDAM (delta_IDAM p a)"
| "area_delta p (Area_DAM a) = Area_DAM (delta_DAM p a)"
| "area_delta p (Area_Sector a) = Area_Sector (delta_Sector p a)"

text \<open>
  Modelled from the spec: the mark bytes \<^verbatim>\<open>IBM_MFM.IAM\<close>, \<^verbatim>\<open>IDAM\<close>, \<^verbatim>\<open>DAM\<close> and \<^verbatim>\<open>DDAM\<close>
  are inherited from \<^verbatim>\<open>IBMTrack\<close>; the specification (section 6) says that their values
  are those of the IBM MFM standard.
\<close>

definition mark_IAM :: byte where "mark_IAM = 0xFC"
definition mark_IDAM :: byte where "mark_IDAM = 0xFE"
definition mark_DAM :: byte where "mark_DAM = 0xFB"
definition mark_DDAM :: byte where "mark_DDAM = 0xF8"


subsection \<open>Tracks\<close>

text \<open>
  The attributes of an \<^verbatim>\<open>IBM_MFM_Formatted\<close> object. \<^verbatim>\<open>nsec\<close> is \<open>t_nsec\<close>. The
  attributes that the constructor does not set are \<open>None\<close> until they are assigned.
  \<^verbatim>\<open>time_per_rev\<close> and \<^verbatim>\<open>clock\<close> are Python floats; they are modelled as exact reals,
  so the rounding of floating-point division is not part of the model.
\<close>

record track =
  cyl :: nat
  head :: nat
  iams :: "IAM list"
  sectors :: "Sector list"
  has_iam :: bool
  raw_iams :: "IAM list"
  raw_sectors :: "Sector list"
  img_bps :: "nat option"
  t_nsec :: "nat option"
  time_per_rev :: "real option"
  clock :: "real option"

definition IBM_MFM_Formatted :: "nat \<Rightarrow> nat \<Rightarrow> track" where
  "IBM_MFM_Formatted cy he =
     \<lparr>cyl = cy, head = he, iams = [], sectors = [], has_iam = False,
      raw_iams = [], raw_sectors = [], img_bps = None, t_nsec = None,
      time_per_rev = None, clock = None\<rparr>"


text \<open>
  Modelled from the spec: \<^verbatim>\<open>IBMTrack.nr_missing\<close> is not among the sources. A sector
  counts as missing while its \<^verbatim>\<open>crc\<close> is not zero (specification, sections 3 and 7).
\<close>

definition nr_missing :: "track \<Rightarrow> nat" where
  "nr_missing t = length (filter (\<lambda>s. crc s \<noteq> 0) (sectors t))"

subsection \<open>Class constants (lines 30 to 32 and 246 to 249)\<close>

definition gap_presync :: nat where "gap_presync = 12"
definition gapbyte :: byte where "gapbyte = 0x4e"
definition GAP_4A :: nat where "GAP_4A = 80"
definition GAP_1 :: nat where "GAP_1 = 50"
definition GAP_2 :: nat where "GAP_2 = 22"
definition GAP_3 :: "nat list" where "GAP_3 = [32, 54, 84, 116, 255, 255, 255, 255]"


subsection \<open>Bit sequences\<close>

text \<open>
  The bit sequence that \<^verbatim>\<open>RawTrack.get_all_data\<close> returns is a \<^verbatim>\<open>bitarray\<close>, here a list
  of booleans. The operations of the \<^verbatim>\<open>bitarray\<close> library that \<^verbatim>\<open>mfm.py\<close> uses:
  \<^verbatim>\<open>frombytes\<close> (big-endian: the most significant bit of each byte first), \<^verbatim>\<open>tobytes\<close>
  (the same order, the last byte filled up with zero bits), slicing with bounds
  \<^verbatim>\<open>0 <= s <= e\<close>, and \<^verbatim>\<open>itersearch\<close>, which yields every offset at which the pattern
  occurs, in ascending order.
\<close>

definition bits_of_byte :: "byte \<Rightarrow> bool list" where
  "bits_of_byte b = map (bit b) [7, 6, 5, 4, 3, 2, 1, 0]"

definition frombytes :: "byte list \<Rightarrow> bool list" where
  "frombytes bs = concat (map bits_of_byte bs)"

definition byte_of_bits :: "bool list \<Rightarrow> byte" where
  "byte_of_bits bs = foldl (\<lambda>w b. push_bit 1 w OR of_bool b) 0 bs"

function tobytes :: "bool list \<Rightarrow> byte list" where
  "tobytes bs =
     (if bs = [] then []
      else byte_of_bits (take 8 (bs @ replicate 7 False)) # tobytes (drop 8 bs))"
  by pat_completeness auto
termination
  by (relation "measure length") auto

declare tobytes.simps [simp del]

definition py_slice :: "'a list \<Rightarrow> int \<Rightarrow> int \<Rightarrow> 'a list" where
  "py_slice xs s e = take (nat (e - s)) (drop (nat s) xs)"

fun itersearch :: "bool list \<Rightarrow> bool list \<Rightarrow> nat \<Rightarrow> int list" where
  "itersearch pat [] k = []"
| "itersearch pat (b # bs) k =
     (if take (length pat) (b # bs) = pat then int k # itersearch pat bs (k + 1)
      else itersearch pat bs (k + 1))"

definition iam_sync_bytes :: "byte list" where
  "iam_sync_bytes = [0x52, 0x24, 0x52, 0x24, 0x52, 0x24]"

definition iam_sync :: "bool list" where
  "iam_sync = frombytes iam_sync_bytes"

definition sync_bytes :: "byte list" where
  "sync_bytes = [0x44, 0x89, 0x44, 0x89, 0x44, 0x89]"

definition sync :: "bool list" where
  "sync = frombytes sync_bytes"

subsection \<open>The CRC\<close>

text \<open>
  Modelled from the spec: \<^verbatim>\<open>crc16\<close> is \<^verbatim>\<open>crcmod.predefined.Crc('crc-ccitt-false')\<close>, an
  external library. Section 4.2 of the specification gives the algorithm: polynomial
  \<^verbatim>\<open>0x1021\<close>, initial value \<^verbatim>\<open>0xFFFF\<close>, no reflection of input or output.
  \<open>crc16 b\<close> is \<^verbatim>\<open>crc16.new(b).crcValue\<close>.
\<close>

definition crc16_shift :: "16 word \<Rightarrow> 16 word" where
  "crc16_shift w = (if bit w 15 then push_bit 1 w XOR 0x1021 else push_bit 1 w)"

definition crc16_update :: "byte \<Rightarrow> 16 word \<Rightarrow> 16 word" where
  "crc16_update x w = (crc16_shift ^^ 8) (w XOR push_bit 8 (ucast x))"

definition crc16 :: "byte list \<Rightarrow> nat" where
  "crc16 b = unat (fold crc16_update b 0xFFFF)"

subsection \<open>IBM\_MFM.decode\_raw (lines 40 to 123)\<close>

text \<open>
  The embedding starts after \<^verbatim>\<open>raw.get_all_data()\<close>: its arguments are the bit sequence
  \<open>bits\<close> and the list \<^verbatim>\<open>raw.revolutions\<close>, both produced by the flux and PLL
  components outside \<^verbatim>\<open>mfm.py\<close>.

  \<open>read_mark\<close> is \<^verbatim>\<open>decode(bits[offs+3*16:offs+4*16].tobytes())[0]\<close>.
\<close>

definition read_mark :: "bool list \<Rightarrow> int \<Rightarrow> py_error + byte" where
  "read_mark bits offs =
     (case decode (tobytes (py_slice bits (offs + 3 * 16) (offs + 4 * 16))) of
        [] \<Rightarrow> Inl IndexError
      | m # _ \<Rightarrow> Inr m)"

text \<open>
  The first loop (lines 52 to 58). The state is the list \<^verbatim>\<open>areas\<close> and the attribute
  \<^verbatim>\<open>has_iam\<close>. \<open>iam_step\<close> is the loop body for one offset; a \<^verbatim>\<open>continue\<close> returns
  the unchanged state.
\<close>

definition iam_step :: "bool list \<Rightarrow> int \<Rightarrow> area list \<times> bool \<Rightarrow> py_error + area list \<times> bool" where
  "iam_step bits offs st =
     (case st of (areas, hi) \<Rightarrow>
      if int (length bits) < offs + 4 * 16 then Inr (areas, hi)
      else case read_mark bits offs of
             Inl e \<Rightarrow> Inl e
           | Inr m \<Rightarrow>
               if m = mark_IAM
               then Inr (areas @ [Area_IAM (new_IAM offs (offs + 4 * 16))], True)
               else Inr (areas, hi))"

fun iam_loop :: "bool list \<Rightarrow> int list \<Rightarrow> area list \<times> bool \<Rightarrow> py_error + area list \<times> bool" where
  "iam_loop bits [] st = Inr st"
| "iam_loop bits (offs # rest) st =
     (case iam_step bits offs st of Inl e \<Rightarrow> Inl e | Inr st' \<Rightarrow> iam_loop bits rest st')"

text \<open>
  \<^verbatim>\<open>struct.unpack(">4x4B2x", b)\<close>: four pad bytes, four unsigned bytes, two pad bytes;
  it raises \<^verbatim>\<open>struct.error\<close> unless \<^verbatim>\<open>b\<close> has exactly ten bytes.
\<close>

definition unpack_4x4B2x :: "byte list \<Rightarrow> py_error + byte \<times> byte \<times> byte \<times> byte" where
  "unpack_4x4B2x b =
     (if length b = 10 then Inr (b ! 4, b ! 5, b ! 6, b ! 7) else Inl StructError)"

text \<open>
  The second loop (lines 60 to 89). The state is the list \<^verbatim>\<open>areas\<close> and the pending ID
  field \<^verbatim>\<open>idam\<close> (\<open>None\<close> as in the source). \<open>sync_step\<close> is the loop body for one
  offset. Each \<^verbatim>\<open>continue\<close> returns the unchanged state; the one in the data-mark
  branch (line 82) therefore skips \<^verbatim>\<open>idam = None\<close> of line 87. \<open>idam_step\<close> is the
  branch of an ID mark and \<open>dam_step\<close> the branch of a data or deleted-data mark.
  \<^verbatim>\<open>b[4:-2]\<close> is \<open>drop 4 (take (length b - 2) b)\<close>.
\<close>

definition idam_step ::
  "bool list \<Rightarrow> int \<Rightarrow> area list \<times> IDAM option \<Rightarrow> py_error + area list \<times> IDAM option" where
  "idam_step bits offs st =
     (case st of (areas, pend) \<Rightarrow>
      let s = offs; e = offs + 10 * 16 in
      if int (length bits) < e then Inr (areas, pend)
      else
        (let b = decode (tobytes (py_slice bits s e)) in
         case unpack_4x4B2x b of
           Inl er \<Rightarrow> Inl er
         | Inr (c, h, r, n) \<Rightarrow>
             (let k = crc16 b;
                  areas' = (case pend of None \<Rightarrow> areas | Some i \<Rightarrow> areas @ [Area_IDAM i])
              in Inr (areas', Some (new_IDAM s e k (uint c) (uint h) (uint r) (unat n))))))"

definition dam_step ::
  "bool list \<Rightarrow> int \<Rightarrow> byte \<Rightarrow> area list \<times> IDAM option \<Rightarrow> area list \<times> IDAM option" where
  "dam_step bits offs m st =
     (case st of (areas, pend) \<Rightarrow>
      case pend of
        None \<Rightarrow> (areas @ [Area_DAM (new_DAM offs (offs + 4 * 16) 0xffff m [])], None)
      | Some i \<Rightarrow>
          if idam_end i - offs > 1000
          then (areas @ [Area_DAM (new_DAM offs (offs + 4 * 16) 0xffff m [])], None)
          else
            (let sz = push_bit (idam_n i) (128 :: nat);
                 s = offs; e = offs + (4 + int sz + 2) * 16
             in if int (length bits) < e then (areas, pend)
                else
                  (let b = decode (tobytes (py_slice bits s e));
                       k = crc16 b;
                       d = new_DAM s e k m (drop 4 (take (length b - 2) b))
                   in (areas @ [Area_Sector (new_Sector i d)], None))))"

definition sync_step ::
  "bool list \<Rightarrow> int \<Rightarrow> area list \<times> IDAM option \<Rightarrow> py_error + area list \<times> IDAM option" where
  "sync_step bits offs st =
     (if int (length bits) < offs + 4 * 16 then Inr st
      else case read_mark bits offs of
             Inl e \<Rightarrow> Inl e
           | Inr m \<Rightarrow>
               if m = mark_IDAM then idam_step bits offs st
               else if m = mark_DAM \<or> m = mark_DDAM then Inr (dam_step bits offs m st)
               else Inr st)"

fun sync_loop ::
  "bool list \<Rightarrow> int list \<Rightarrow> area list \<times> IDAM option \<Rightarrow> py_error + area list \<times> IDAM option" where
  "sync_loop bits [] st = Inr st"
| "sync_loop bits (offs # rest) st =
     (case sync_step bits offs st of Inl e \<Rightarrow> Inl e | Inr st' \<Rightarrow> sync_loop bits rest st')"

text \<open>
  \<open>scan\<close> is lines 47 to 92: both loops, then the pending ID field, if any, is
  appended.
\<close>

definition scan :: "bool list \<Rightarrow> bool \<Rightarrow> py_error + area list \<times> bool" where
  "scan bits hi0 =
     (case iam_loop bits (itersearch iam_sync bits 0) ([], hi0) of
        Inl e \<Rightarrow> Inl e
      | Inr (areas, hi) \<Rightarrow>
          (case sync_loop bits (itersearch sync bits 0) (areas, None) of
             Inl e \<Rightarrow> Inl e
           | Inr (areas, pend) \<Rightarrow>
               Inr (case pend of None \<Rightarrow> areas | Some i \<Rightarrow> areas @ [Area_IDAM i], hi)))"

text \<open>
  Lines 96 to 105. \<open>p\<close> and \<open>n\<close> are the bounds of the current revolution;
  \<open>n = None\<close> stands for \<^verbatim>\<open>float('inf')\<close>, and \<open>index\<close> is what is left of the iterator
  over \<^verbatim>\<open>raw.revolutions\<close>.
\<close>

fun to_track_offsets :: "area list \<Rightarrow> int \<Rightarrow> int option \<Rightarrow> int list \<Rightarrow> area list" where
  "to_track_offsets [] p n index = []"
| "to_track_offsets (a # as) p None index = area_delta p a # to_track_offsets as p None index"
| "to_track_offsets (a # as) p (Some n) index =
     (if area_start a \<ge> n
      then (case index of
              [] \<Rightarrow> area_delta n a # to_track_offsets as n None []
            | r # rest \<Rightarrow> area_delta n a # to_track_offsets as n (Some (n + r)) rest)
      else area_delta p a # to_track_offsets as p (Some n) index)"

text \<open>
  Lines 109 to 123, for one area \<^verbatim>\<open>a\<close>: the loop over the list with its \<^verbatim>\<open>break\<close>, and
  the \<^verbatim>\<open>append\<close> when the loop found nothing. An \<^verbatim>\<open>IAM\<close> is never written into the list,
  since \<^verbatim>\<open>isinstance(a, Sector)\<close> is false for it.
\<close>

fun merge_iam :: "IAM \<Rightarrow> IAM list \<Rightarrow> IAM list" where
  "merge_iam a [] = [a]"
| "merge_iam a (s # list) =
     (if \<bar>iam_start s - iam_start a\<bar> < 1000 then s # list else s # merge_iam a list)"

fun merge_sector :: "Sector \<Rightarrow> Sector list \<Rightarrow> Sector list" where
  "merge_sector a [] = [a]"
| "merge_sector a (s # list) =
     (if \<bar>start s - start a\<bar> < 1000
      then (if crc s \<noteq> 0 \<and> crc a = 0 then a # list else s # list)
      else s # merge_sector a list)"

fun merge_area :: "area \<Rightarrow> track \<Rightarrow> track" where
  "merge_area (Area_IAM a) t = t\<lparr>iams := merge_iam a (iams t)\<rparr>"
| "merge_area (Area_Sector a) t = t\<lparr>sectors := merge_sector a (sectors t)\<rparr>"
| "merge_area (Area_IDAM a) t = t"
| "merge_area (Area_DAM a) t = t"

definition merge_areas :: "area list \<Rightarrow> track \<Rightarrow> track" where
  "merge_areas areas t = fold merge_area areas t"

text \<open>
  Lines 95 to 106: the areas are sorted by start offset, re-expressed relative to the
  index of their revolution, and sorted again. \<^verbatim>\<open>next(index)\<close> on line 97 raises
  \<^verbatim>\<open>StopIteration\<close> when \<^verbatim>\<open>raw.revolutions\<close> is empty. \<^verbatim>\<open>list.sort\<close> is stable, as
  \<open>sort_key\<close> is.
\<close>

definition track_areas :: "area list \<Rightarrow> int list \<Rightarrow> py_error + area list" where
  "track_areas areas revolutions =
     (let areas = sort_key area_start areas in
      case revolutions of
        [] \<Rightarrow> Inl StopIteration
      | n # index \<Rightarrow> Inr (sort_key area_start (to_track_offsets areas 0 (Some n) index)))"

text \<open>\<^verbatim>\<open>decode_raw\<close> as a whole.\<close>

definition decode_raw :: "track \<Rightarrow> bool list \<Rightarrow> int list \<Rightarrow> py_error + track" where
  "decode_raw t bits revolutions =
     (case scan bits (has_iam t) of
        Inl e \<Rightarrow> Inl e
      | Inr (areas, hi) \<Rightarrow>
          (case track_areas areas revolutions of
             Inl e \<Rightarrow> Inl e
           | Inr areas \<Rightarrow> Inr (merge_areas areas (t\<lparr>has_iam := hi\<rparr>))))"

subsection \<open>IBM\_MFM\_Formatted (lines 167 to 244)\<close>

text \<open>
  \<^verbatim>\<open>IBM_MFM_Formatted.decode_raw\<close> (lines 174 to 198). The base method works on the lists
  \<^verbatim>\<open>raw_iams\<close> and \<^verbatim>\<open>raw_sectors\<close>, which it changes in place. \<open>match_sector r s\<close> is
  the body of the inner loop for a raw sector \<open>r\<close> and an expected sector \<open>s\<close>. The
  set \<^verbatim>\<open>mismatches\<close> is only printed and is not part of the model.
\<close>

definition match_sector :: "Sector \<Rightarrow> Sector \<Rightarrow> Sector" where
  "match_sector r s =
     (if idam_c (idam s) = idam_c (idam r) \<and> idam_h (idam s) = idam_h (idam r)
         \<and> idam_r (idam s) = idam_r (idam r) \<and> idam_n (idam s) = idam_n (idam r)
      then (let s1 = s\<lparr>idam := (idam s)\<lparr>idam_crc := 0\<rparr>\<rparr>
            in if dam_crc (dam r) = 0 \<and> dam_crc (dam s1) \<noteq> 0
               then s1\<lparr>crc := 0, dam := (dam s1)\<lparr>dam_crc := 0, data := data (dam r)\<rparr>\<rparr>
               else s1)
      else s)"

fun match_raw :: "Sector list \<Rightarrow> Sector list \<Rightarrow> Sector list" where
  "match_raw [] ss = ss"
| "match_raw (r # raw) ss =
     (if idam_crc (idam r) \<noteq> 0 then match_raw raw ss
      else match_raw raw (map (match_sector r) ss))"

definition decode_raw_formatted :: "track \<Rightarrow> bool list \<Rightarrow> int list \<Rightarrow> py_error + track" where
  "decode_raw_formatted t bits revolutions =
     (case decode_raw (t\<lparr>iams := raw_iams t, sectors := raw_sectors t\<rparr>) bits revolutions of
        Inl e \<Rightarrow> Inl e
      | Inr t' \<Rightarrow>
          Inr (t'\<lparr>raw_iams := iams t', raw_sectors := sectors t',
                  iams := iams t,
                  sectors := match_raw (sectors t') (sectors t)\<rparr>))"

text \<open>
  \<^verbatim>\<open>set_img_track\<close> (lines 200 to 219). \<open>set_img_loop\<close> is the loop over the sectors,
  with \<open>pos\<close> the running position in \<^verbatim>\<open>tdat\<close>; \<^verbatim>\<open>tdat[pos:pos+size]\<close> is
  \<open>take size (drop pos tdat)\<close>. The result is the changed track and the returned
  \<^verbatim>\<open>totsize\<close>.
\<close>

fun set_img_loop :: "nat option \<Rightarrow> byte list \<Rightarrow> nat \<Rightarrow> Sector list \<Rightarrow> Sector list" where
  "set_img_loop bps tdat pos [] = []"
| "set_img_loop bps tdat pos (s # ss) =
     (let sizeb = push_bit (idam_n (idam s)) (128 :: nat);
          s' = s\<lparr>crc := 0, idam := (idam s)\<lparr>idam_crc := 0\<rparr>,
                 dam := (dam s)\<lparr>dam_crc := 0, data := take sizeb (drop pos tdat)\<rparr>\<rparr>
      in s' # set_img_loop bps tdat (case bps of Some b \<Rightarrow> pos + b | None \<Rightarrow> pos + sizeb) ss)"

definition set_img_track :: "track \<Rightarrow> byte list \<Rightarrow> track \<times> nat" where
  "set_img_track t tdat =
     (let ss = sort_key (\<lambda>x. idam_r (idam x)) (sectors t);
          totsize = (case img_bps t of
                       Some b \<Rightarrow> length ss * b
                     | None \<Rightarrow> foldl (\<lambda>x y. x + push_bit (idam_n (idam y)) 128) 0 ss);
          tdat = (if length tdat < totsize
                  then tdat @ replicate (totsize - length tdat) 0 else tdat);
          ss = set_img_loop (img_bps t) tdat 0 ss
      in (t\<lparr>sectors := sort_key start ss\<rparr>, totsize))"

text \<open>
  \<^verbatim>\<open>get_img_track\<close> (lines 221 to 229). \<^verbatim>\<open>bytes(k)\<close> raises \<^verbatim>\<open>ValueError\<close> for a
  negative \<^verbatim>\<open>k\<close>.
\<close>

fun get_img_loop :: "nat option \<Rightarrow> Sector list \<Rightarrow> py_error + byte list" where
  "get_img_loop bps [] = Inr []"
| "get_img_loop bps (s # ss) =
     (case (case bps of
              None \<Rightarrow> Inr (data (dam s))
            | Some b \<Rightarrow>
                if b < length (data (dam s)) then Inl ValueError
                else Inr (data (dam s) @ replicate (b - length (data (dam s))) 0)) of
        Inl e \<Rightarrow> Inl e
      | Inr piece \<Rightarrow>
          (case get_img_loop bps ss of Inl e \<Rightarrow> Inl e | Inr rest \<Rightarrow> Inr (piece @ rest)))"

definition get_img_track :: "track \<Rightarrow> py_error + byte list" where
  "get_img_track t = get_img_loop (img_bps t) (sort_key (\<lambda>x. idam_r (idam x)) (sectors t))"

text \<open>
  \<^verbatim>\<open>verify_track\<close> (lines 231 to 244). Reading \<^verbatim>\<open>self.clock\<close> or \<^verbatim>\<open>self.time_per_rev\<close>
  raises \<^verbatim>\<open>AttributeError\<close> while the attribute is not set. \<^verbatim>\<open>copy.copy\<close> of an area is
  the same value. \<open>bits\<close> and \<open>revolutions\<close> are what \<^verbatim>\<open>flux\<close> gives to
  \<^verbatim>\<open>decode_raw\<close>. The comparison \<^verbatim>\<open>==\<close> of the two lists is by value.
\<close>

definition verify_track :: "track \<Rightarrow> bool list \<Rightarrow> int list \<Rightarrow> py_error + bool" where
  "verify_track t bits revolutions =
     (let readback_track = IBM_MFM_Formatted (cyl t) (head t) in
      if clock t = None \<or> time_per_rev t = None then Inl AttributeError
      else
        (let readback_track = readback_track\<lparr>clock := clock t, time_per_rev := time_per_rev t\<rparr>;
             readback_track = readback_track\<lparr>iams := iams readback_track @ iams t\<rparr>;
             readback_track = readback_track\<lparr>sectors := sectors readback_track @
                map (\<lambda>x. new_Sector ((idam x)\<lparr>idam_crc := 0xffff\<rparr>)
                                     ((dam x)\<lparr>dam_crc := 0xffff\<rparr>))
                    (sectors t)\<rparr>
         in case decode_raw_formatted readback_track bits revolutions of
              Inl e \<Rightarrow> Inl e
            | Inr readback_track \<Rightarrow>
                if nr_missing readback_track \<noteq> 0 then Inr False
                else Inr (sectors t = sectors readback_track)))"

subsection \<open>IBM\_MFM\_Formatted.from\_config (lines 251 to 340)\<close>

text \<open>
  The fields of the configuration object that \<^verbatim>\<open>from_config\<close> reads, each with the
  prefix \<open>cfg_\<close>. Counts, sizes, gaps, rates and identifiers are natural numbers: the
  model covers configurations without negative entries. An optional entry that is
  \<^verbatim>\<open>None\<close> in Python is \<open>None\<close>.
\<close>

record config =
  cfg_secs :: nat
  cfg_sz :: "nat list"
  cfg_id :: nat
  cfg_h :: "nat option"
  cfg_cskew :: nat
  cfg_hskew :: nat
  cfg_interleave :: nat
  cfg_iam :: bool
  cfg_gap1 :: "nat option"
  cfg_gap2 :: "nat option"
  cfg_gap3 :: "nat option"
  cfg_gap4a :: "nat option"
  cfg_rate :: nat
  cfg_rpm :: nat
  cfg_img_bps :: "nat option"

definition sec_n :: "config \<Rightarrow> nat \<Rightarrow> py_error + nat" where
  "sec_n cfg i =
     (if i < length (cfg_sz cfg) then Inr (cfg_sz cfg ! i)
      else if cfg_sz cfg = [] then Inl IndexError
      else Inr (last (cfg_sz cfg)))"

fun add_sizes :: "config \<Rightarrow> nat list \<Rightarrow> nat \<Rightarrow> py_error + nat" where
  "add_sizes cfg [] tracklen = Inr tracklen"
| "add_sizes cfg (i # is) tracklen =
     (case sec_n cfg i of
        Inl e \<Rightarrow> Inl e
      | Inr n \<Rightarrow> add_sizes cfg is (tracklen + push_bit n 128))"

definition gap_1_of :: "config \<Rightarrow> nat option" where
  "gap_1_of cfg = (if cfg_iam cfg then Some (case cfg_gap1 cfg of None \<Rightarrow> GAP_1 | Some g \<Rightarrow> g) else None)"

definition gap_2_of :: "config \<Rightarrow> nat" where
  "gap_2_of cfg = (case cfg_gap2 cfg of None \<Rightarrow> GAP_2 | Some g \<Rightarrow> g)"

definition gap_3_of :: "config \<Rightarrow> nat" where
  "gap_3_of cfg = (case cfg_gap3 cfg of None \<Rightarrow> 0 | Some g \<Rightarrow> g)"

definition gap_4a_of :: "config \<Rightarrow> nat" where
  "gap_4a_of cfg = (case cfg_gap4a cfg of None \<Rightarrow> GAP_4A | Some g \<Rightarrow> g)"

definition content_tracklen :: "config \<Rightarrow> py_error + nat" where
  "content_tracklen cfg =
     (let nsec = cfg_secs cfg;
          idx_sz = gap_4a_of cfg
                   + (case gap_1_of cfg of None \<Rightarrow> 0 | Some g1 \<Rightarrow> gap_presync + 4 + g1);
          idam_sz = gap_presync + 8 + 2 + gap_2_of cfg;
          dam_sz_pre = gap_presync + 4;
          dam_sz_post = 2 + gap_3_of cfg;
          tracklen = idx_sz + (idam_sz + dam_sz_pre + dam_sz_post) * nsec
      in case add_sizes cfg [0..<nsec] tracklen of
           Inl e \<Rightarrow> Inl e
         | Inr tracklen \<Rightarrow> Inr (tracklen * 16))"

definition maxlen :: "nat \<Rightarrow> nat \<Rightarrow> nat" where
  "maxlen rpm i = push_bit i (50000 * 300 div rpm) + 5000"

fun rate_loop :: "nat \<Rightarrow> nat \<Rightarrow> nat list \<Rightarrow> nat \<Rightarrow> nat" where
  "rate_loop rpm tracklen [] i = i"
| "rate_loop rpm tracklen (j # js) i =
     (if tracklen < maxlen rpm j then j else rate_loop rpm tracklen js j)"

definition select_rate :: "config \<Rightarrow> nat \<Rightarrow> py_error + nat" where
  "select_rate cfg tracklen =
     (if cfg_rate cfg = 0
      then (if cfg_rpm cfg = 0 then Inl ZeroDivisionError
            else Inr (push_bit (rate_loop (cfg_rpm cfg) tracklen [1, 2, 3] 0) 125))
      else Inr (cfg_rate cfg))"

partial_function (option) next_free :: "int list \<Rightarrow> nat \<Rightarrow> nat option" where
  "next_free sec_map pos =
     (if sec_map ! pos \<noteq> - 1 then next_free sec_map ((pos + 1) mod length sec_map)
      else Some pos)"

fun fill_sec_map :: "nat \<Rightarrow> nat list \<Rightarrow> int list \<Rightarrow> nat \<Rightarrow> int list option" where
  "fill_sec_map il [] sec_map pos = Some sec_map"
| "fill_sec_map il (i # is) sec_map pos =
     (case next_free sec_map pos of
        None \<Rightarrow> None
      | Some p \<Rightarrow> fill_sec_map il is (sec_map[p := int i]) ((p + il) mod length sec_map))"

definition make_sec_map :: "config \<Rightarrow> nat \<Rightarrow> nat \<Rightarrow> int list option" where
  "make_sec_map cfg cy he =
     (let nsec = cfg_secs cfg;
          pos = (if nsec \<noteq> 0 then (cy * cfg_cskew cfg + he * cfg_hskew cfg) mod nsec else 0)
      in fill_sec_map (cfg_interleave cfg) [0..<nsec] (replicate nsec (- 1)) pos)"

definition bad_sector_fill :: "nat \<Rightarrow> byte list" where
  "bad_sector_fill sizeb =
     concat (replicate (sizeb div 16)
       [0x2d, 0x3d, 0x5b, 0x42, 0x41, 0x44, 0x20, 0x53, 0x45, 0x43, 0x54, 0x4f, 0x52, 0x5d, 0x3d, 0x2d])"

fun place_sectors ::
  "config \<Rightarrow> nat \<Rightarrow> int \<Rightarrow> nat \<Rightarrow> nat \<Rightarrow> int list \<Rightarrow> nat \<Rightarrow> py_error + Sector list" where
  "place_sectors cfg cy h gap_2 gap_3 [] pos = Inr []"
| "place_sectors cfg cy h gap_2 gap_3 (sec # rest) pos =
     (let pos1 = pos + gap_presync in
      case sec_n cfg (nat sec) of
        Inl e \<Rightarrow> Inl e
      | Inr n \<Rightarrow>
          (let i = new_IDAM (int (pos1 * 16)) (int ((pos1 + 10) * 16)) 0xffff
                     (int cy) h (int (cfg_id cfg) + sec) n;
               pos2 = pos1 + (10 + gap_2 + gap_presync);
               sizeb = push_bit (idam_n i) 128;
               d = new_DAM (int (pos2 * 16)) (int ((pos2 + 4 + sizeb + 2) * 16)) 0xffff
                     mark_DAM (bad_sector_fill sizeb);
               pos3 = pos2 + (4 + sizeb + 2 + gap_3)
           in case place_sectors cfg cy h gap_2 gap_3 rest pos3 of
                Inl e \<Rightarrow> Inl e
              | Inr ss \<Rightarrow> Inr (new_Sector i d # ss)))"

declare place_sectors.simps [simp del]

definition from_config :: "config \<Rightarrow> nat \<Rightarrow> nat \<Rightarrow> (py_error + track) option" where
  "from_config cfg cy he =
     (let t = (IBM_MFM_Formatted cy he)\<lparr>t_nsec := Some (cfg_secs cfg), img_bps := cfg_img_bps cfg\<rparr>;
          nsec = cfg_secs cfg;
          gap_1 = gap_1_of cfg;
          gap_2 = gap_2_of cfg;
          gap_3 = gap_3_of cfg;
          gap_4a = gap_4a_of cfg
      in case content_tracklen cfg of
           Inl e \<Rightarrow> Some (Inl e)
         | Inr tracklen \<Rightarrow>
      (case select_rate cfg tracklen of
           Inl e \<Rightarrow> Some (Inl e)
         | Inr rate \<Rightarrow>
      (let ed = (cfg_gap2 cfg = None \<and> rate \<ge> 1000);
           tracklen = (if ed then tracklen + 16 * nsec * (41 - gap_2) else tracklen);
           gap_2 = (if ed then 41 else gap_2)
       in if cfg_rpm cfg = 0 then Some (Inl ZeroDivisionError) else
      (let tracklen_bc = rate * 400 * 300 div cfg_rpm cfg in
       case (if nsec \<noteq> 0 \<and> cfg_gap3 cfg = None
             then (case sec_n cfg 0 of
                     Inl e \<Rightarrow> Inl e
                   | Inr no \<Rightarrow>
                       if no < length GAP_3
                       then Inr (min (nat (max 0 (int tracklen_bc - int tracklen)) div (16 * nsec))
                                     (GAP_3 ! no))
                       else Inl IndexError)
             else Inr gap_3) of
         Inl e \<Rightarrow> Some (Inl e)
       | Inr gap_3' \<Rightarrow>
      (let tracklen = (if nsec \<noteq> 0 \<and> cfg_gap3 cfg = None
                       then tracklen + 16 * nsec * gap_3' else tracklen);
           tracklen_bc = max tracklen_bc tracklen
       in if tracklen_bc = 0 then Some (Inl ZeroDivisionError) else
      (let t = t\<lparr>time_per_rev := Some (60 / real (cfg_rpm cfg)),
                   clock := Some (60 / real (cfg_rpm cfg) / real tracklen_bc)\<rparr>
       in case make_sec_map cfg cy he of
            None \<Rightarrow> None
          | Some sec_map \<Rightarrow>
      (let pos = gap_4a;
           t = (case gap_1 of
                  None \<Rightarrow> t
                | Some g1 \<Rightarrow>
                    t\<lparr>iams := [new_IAM (int ((pos + gap_presync) * 16))
                                        (int ((pos + gap_presync + 4) * 16))]\<rparr>);
           pos = (case gap_1 of None \<Rightarrow> pos | Some g1 \<Rightarrow> pos + gap_presync + (4 + g1));
           h = (case cfg_h cfg of None \<Rightarrow> int he | Some x \<Rightarrow> int x)
       in case place_sectors cfg cy h gap_2 gap_3' sec_map pos of
            Inl e \<Rightarrow> Some (Inl e)
          | Inr ss \<Rightarrow> Some (Inr (t\<lparr>sectors := sectors t @ ss\<rparr>)))))))))"

subsection \<open>Example configurations\<close>

text \<open>
  \<open>cfg9\<close> is the configuration of the specification's example: nine sectors of size
  code 2, interleave 1, no skew, 250 kbit/s, 300 rpm, first sector ID 1, with an index
  mark; the entries that the example does not give are \<^verbatim>\<open>None\<close>. \<open>sector9 pos r\<close> is
  the sector that \<^verbatim>\<open>from_config\<close> places for it at byte position \<open>pos\<close> with sector ID
  \<open>r\<close>. \<open>cfg_big\<close> asks for two sectors of 16384 bytes with automatic data rate.
\<close>

definition cfg9 :: config where
  "cfg9 = \<lparr>cfg_secs = 9, cfg_sz = [2, 2, 2, 2, 2, 2, 2, 2, 2], cfg_id = 1, cfg_h = None,
            cfg_cskew = 0, cfg_hskew = 0, cfg_interleave = 1, cfg_iam = True,
            cfg_gap1 = None, cfg_gap2 = None, cfg_gap3 = None, cfg_gap4a = None,
            cfg_rate = 250, cfg_rpm = 300, cfg_img_bps = None\<rparr>"

definition sector9 :: "nat \<Rightarrow> int \<Rightarrow> Sector" where
  "sector9 pos r =
     new_Sector (new_IDAM (int (pos * 16)) (int ((pos + 10) * 16)) 0xffff 0 0 r 2)
                (new_DAM (int ((pos + 44) * 16)) (int ((pos + 44 + 518) * 16)) 0xffff mark_DAM
                   (bad_sector_fill 512))"

definition cfg_big :: config where
  "cfg_big = \<lparr>cfg_secs = 2, cfg_sz = [7], cfg_id = 1, cfg_h = None,
            cfg_cskew = 0, cfg_hskew = 0, cfg_interleave = 1, cfg_iam = True,
            cfg_gap1 = None, cfg_gap2 = None, cfg_gap3 = None, cfg_gap4a = None,
            cfg_rate = 0, cfg_rpm = 300, cfg_img_bps = None\<rparr>"

subsection \<open>Notions used in the statements about the image functions\<close>

text \<open>
  \<open>sector_size s\<close> is \<^verbatim>\<open>128 << s.idam.n\<close>; \<open>capacity\<close> is the total sector capacity
  of a list of sectors; \<open>pad_or_truncate k buf\<close> is \<open>buf\<close> filled up with zero bytes,
  or cut, to \<open>k\<close> bytes; \<open>stride_fits bps ss\<close> says that a configured fixed stride
  \<^verbatim>\<open>img_bps\<close> equals the size of every sector. The example tracks: \<open>t_ok\<close> has the
  sector with ID 2 before the one with ID 1; \<open>t_dup\<close> has two sectors with ID 1, the
  later one first in the list; \<open>t_stride\<close> has one sector of 128 bytes and a stride
  of 256.
\<close>

definition sector_size :: "Sector \<Rightarrow> nat" where
  "sector_size s = push_bit (idam_n (idam s)) 128"

definition capacity :: "Sector list \<Rightarrow> nat" where
  "capacity ss = sum_list (map sector_size ss)"

definition pad_or_truncate :: "nat \<Rightarrow> byte list \<Rightarrow> byte list" where
  "pad_or_truncate k buf = take k (buf @ replicate (k - length buf) 0)"

definition stride_fits :: "nat option \<Rightarrow> Sector list \<Rightarrow> bool" where
  "stride_fits bps ss = (case bps of None \<Rightarrow> True | Some b \<Rightarrow> list_all (\<lambda>s. sector_size s = b) ss)"

definition example_sector :: "int \<Rightarrow> int \<Rightarrow> nat \<Rightarrow> Sector" where
  "example_sector st r n =
     new_Sector (new_IDAM st (st + 160) 0xffff 0 0 r n)
       (new_DAM (st + 704) (st + 704 + (4 + int (push_bit n 128) + 2) * 16) 0xffff mark_DAM
          (bad_sector_fill (push_bit n 128)))"

definition t_ok :: track where
  "t_ok = (IBM_MFM_Formatted 0 0)\<lparr>sectors := [example_sector 0 2 0, example_sector 8000 1 0]\<rparr>"

definition t_dup :: track where
  "t_dup = (IBM_MFM_Formatted 0 0)\<lparr>sectors := [example_sector 8000 1 0, example_sector 0 1 0]\<rparr>"

definition t_stride :: track where
  "t_stride = (IBM_MFM_Formatted 0 0)\<lparr>sectors := [example_sector 0 1 0], img_bps := Some 256\<rparr>"

subsection \<open>Notions and example inputs used in the statements about decode\_raw\<close>

text \<open>
  \<open>is_iam_or_sector\<close> tells the two kinds of area that the merge step looks at.
  \<open>example_good_sector\<close> is \<open>example_sector\<close> with valid CRCs.
  Three bit sequences, written as the bytes that \<^verbatim>\<open>frombytes\<close> reads:
  \<open>idam_field_bits\<close> is the field sync \<^verbatim>\<open>0x4489\<close> three times and the encoding of the
  bytes \<^verbatim>\<open>FE 00 00 01 00 00 00\<close>, an ID field for sector 1 of size code 0 (160 bit
  cells); \<open>dam_mark_bits\<close> is the field sync and the encoding of the data mark \<^verbatim>\<open>FB\<close>
  (64 bit cells); \<open>far_bits\<close> is the ID field, 1840 zero bit cells, the data mark at
  offset 2000, and zero bit cells up to offset 4144, the end of a data field of 128
  bytes. \<open>example_idam\<close> and \<open>far_dam\<close> are the ID field and the data field that
  \<^verbatim>\<open>decode_raw\<close> builds from \<open>far_bits\<close>.
\<close>

definition is_iam_or_sector :: "area \<Rightarrow> bool" where
  "is_iam_or_sector a = (case a of Area_IAM x \<Rightarrow> True | Area_Sector x \<Rightarrow> True | _ \<Rightarrow> False)"

definition example_good_sector :: "int \<Rightarrow> int \<Rightarrow> nat \<Rightarrow> Sector" where
  "example_good_sector st r n =
     new_Sector (new_IDAM st (st + 160) 0 0 0 r n)
       (new_DAM (st + 704) (st + 704 + (4 + int (push_bit n 128) + 2) * 16) 0 mark_DAM
          (bad_sector_fill (push_bit n 128)))"

definition idam_field_bits :: "bool list" where
  "idam_field_bits = frombytes [0x44, 0x89, 0x44, 0x89, 0x44, 0x89, 0x55, 0x54,
      0x00, 0x00, 0x00, 0x00, 0x00, 0x01, 0x00, 0x00, 0x00, 0x00, 0x00, 0x00]"

definition dam_mark_bits :: "bool list" where
  "dam_mark_bits = frombytes [0x44, 0x89, 0x44, 0x89, 0x44, 0x89, 0x55, 0x45]"

definition far_bits :: "bool list" where
  "far_bits = idam_field_bits @ replicate 1840 False @ dam_mark_bits @ replicate 2080 False"

definition example_idam :: IDAM where
  "example_idam = new_IDAM 0 160
     (crc16 [0xA1, 0xA1, 0xA1, 0xFE, 0x00, 0x00, 0x01, 0x00, 0x00, 0x00]) 0 0 1 0"

definition far_dam :: DAM where
  "far_dam =
     (let b = decode (tobytes (py_slice far_bits 2000 4144))
      in new_DAM 2000 4144 (crc16 b) mark_DAM (drop 4 (take (length b - 2) b)))"

subsection \<open>Notions used in the statement about verify\_track\<close>

text \<open>
  \<open>readback_init t\<close> is the throw-away track of \<^verbatim>\<open>verify_track\<close> before it decodes: a
  new track with the timing of \<open>t\<close>, copies of its index marks, and for each of its
  sectors a sector built from copies of the ID field and the data field with both CRCs
  set to \<^verbatim>\<open>0xffff\<close>. \<open>timed_track t\<close> is \<open>t\<close> with the timing of a double-density
  track.
\<close>

definition invalidated :: "Sector \<Rightarrow> Sector" where
  "invalidated x = new_Sector ((idam x)\<lparr>idam_crc := 0xffff\<rparr>) ((dam x)\<lparr>dam_crc := 0xffff\<rparr>)"

definition readback_init :: "track \<Rightarrow> track" where
  "readback_init t =
     \<lparr>cyl = cyl t, head = head t, iams = iams t, sectors = map invalidated (sectors t),
      has_iam = False, raw_iams = [], raw_sectors = [], img_bps = None, t_nsec = None,
      time_per_rev = time_per_rev t, clock = clock t\<rparr>"

definition timed_track :: "track \<Rightarrow> track" where
  "timed_track t = t\<lparr>time_per_rev := Some (60 / 300), clock := Some (60 / 300 / 100000)\<rparr>"

(*MODEL-END*)

section \<open>Verification\<close>

subsection \<open>The modulation tables, bit by bit\<close>

lemma and_push_bit_1_nat: "(x::nat) AND push_bit k 1 \<noteq> 0 \<longleftrightarrow> bit x k"
  by (metis and_exp_eq_0_iff_not_bit push_bit_of_1)

lemma bit_decode_step: "bit (decode_step x i y) n \<longleftrightarrow> bit y n \<or> (n = i \<and> bit x (n * 2))"
proof (cases "bit x (i * 2)")
  case True
  then have "decode_step x i y = y OR push_bit i 1"
    by (simp only: decode_step_def and_push_bit_1_nat if_True)
  then show ?thesis using True by (auto simp: bit_or_iff bit_exp_iff)
next
  case False
  then have "decode_step x i y = y"
    by (simp only: decode_step_def and_push_bit_1_nat if_False)
  then show ?thesis using False by auto
qed

lemma bit_decode_fold:
  "bit (fold (decode_step x) js y0) n \<longleftrightarrow> bit y0 n \<or> (n \<in> set js \<and> bit x (n * 2))"
proof (induction js arbitrary: y0)
  case Nil
  show ?case by simp
next
  case (Cons j js)
  show ?case by (simp only: fold_simps Cons.IH bit_decode_step) auto
qed

lemma bit_decode_entry: "bit (decode_entry x) n \<longleftrightarrow> n < 16 \<and> bit x (n * 2)"
  unfolding decode_entry_def bit_decode_fold by simp

lemma drop_bit_and_1_nat: "drop_bit k (x::nat) AND 1 = of_bool (bit x k)"
  by (simp add: and_one_eq bit_iff_odd_drop_bit mod_2_eq_odd)

lemma bit_encode_step:
  "bit (encode_step x i y) n \<longleftrightarrow> (2 \<le> n \<and> bit y (n - 2)) \<or> (n = 0 \<and> bit x (7 - i))"
  unfolding encode_step_def drop_bit_and_1_nat
  by (auto simp: bit_or_iff bit_push_bit_iff bit_of_bool_iff)

lemma bit_encode_fold:
  "k \<le> 8 \<Longrightarrow> bit (fold (encode_step x) [0..<k] 0) n
     \<longleftrightarrow> even n \<and> n div 2 < k \<and> bit x (8 - k + n div 2)"
proof (induction k arbitrary: n)
  case 0
  then show ?case by simp
next
  case (Suc k)
  then have k: "k \<le> 8" by simp
  have "bit (fold (encode_step x) [0..<Suc k] 0) n
      \<longleftrightarrow> (2 \<le> n \<and> bit (fold (encode_step x) [0..<k] 0) (n - 2)) \<or> (n = 0 \<and> bit x (7 - k))"
    by (simp add: bit_encode_step)
  also have "\<dots> \<longleftrightarrow> (2 \<le> n \<and> even (n - 2) \<and> (n - 2) div 2 < k \<and> bit x (8 - k + (n - 2) div 2))
       \<or> (n = 0 \<and> bit x (7 - k))"
    by (simp only: Suc.IH [OF k])
  also have "\<dots> \<longleftrightarrow> even n \<and> n div 2 < Suc k \<and> bit x (8 - Suc k + n div 2)"
  proof (cases "n = 0")
    case True
    then show ?thesis by simp
  next
    case False
    show ?thesis
    proof (cases "even n")
      case True
      from True obtain j where j: "n = 2 * j" by (auto elim: evenE)
      with False have "j \<noteq> 0" by simp
      then obtain m' where "j = Suc m'" by (cases j) auto
      with j have m: "n = 2 * m' + 2" by simp
      have e: "8 - k + m' = 8 - Suc k + (m' + 1)" using \<open>Suc k \<le> 8\<close> by simp
      show ?thesis unfolding m by (simp add: e)
    next
      case False
      then have "n \<noteq> 0" by (cases n) auto
      with False show ?thesis by auto
    qed
  qed
  finally show ?case .
qed

lemma bit_encode_entry: "bit (encode_entry x) n \<longleftrightarrow> even n \<and> n < 16 \<and> bit x (n div 2)"
  unfolding encode_entry_def by (subst bit_encode_fold) auto



lemma encode_entry_lt: "encode_entry x < 65536"
proof -
  have "take_bit 16 (encode_entry x) = encode_entry x"
    by (rule bit_eqI) (auto simp: bit_take_bit_iff bit_encode_entry)
  then have "encode_entry x < 2 ^ 16"
    by (metis take_bit_nat_less_exp)
  then show ?thesis by simp
qed

lemma not_bit_nat_beyond: "(x::nat) < 2 ^ m \<Longrightarrow> m \<le> k \<Longrightarrow> \<not> bit x k"
proof -
  assume "x < 2 ^ m" and "m \<le> k"
  then have "x < 2 ^ k"
    by (meson less_le_trans one_le_numeral power_increasing)
  then show ?thesis by (simp add: bit_iff_odd)
qed

lemma decode_entry_lt: "x \<le> 0x5555 \<Longrightarrow> decode_entry x < 256"
proof -
  assume x: "x \<le> 0x5555"
  then have x15: "x < 2 ^ 15" by simp
  have "take_bit 8 (decode_entry x) = decode_entry x"
  proof (rule bit_eqI)
    fix n
    show "bit (take_bit 8 (decode_entry x)) n = bit (decode_entry x) n"
    proof (cases "8 \<le> n")
      case True
      then have "\<not> bit x (n * 2)"
        using x15 by (intro not_bit_nat_beyond [of x 15]) auto
      with True show ?thesis
        by (simp add: bit_take_bit_iff bit_decode_entry)
    next
      case False
      then show ?thesis
        by (simp add: bit_take_bit_iff bit_decode_entry)
    qed
  qed
  then have "decode_entry x < 2 ^ 8"
    by (metis take_bit_nat_less_exp)
  then show ?thesis by simp
qed

lemma encode_list_nth: "encode_list ! unat (x::byte) = encode_entry (unat x)"
proof -
  have "unat x < 256" using unsigned_less [of x, where ?'a = nat] by simp
  then show ?thesis by (simp add: encode_list_def)
qed

lemma decode_list_nth: "k \<le> 0x5555 \<Longrightarrow> decode_list ! k = word_of_nat (decode_entry k)"
  by (simp add: decode_list_def)


lemma unat_byte_lt: "unat (x::byte) < 256"
  using unsigned_less [of x, where ?'a = nat] by simp

lemma pack_H_encode_entry:
  "pack_H (encode_entry x) = Inr [word_of_nat (drop_bit 8 (encode_entry x)), word_of_nat (encode_entry x AND 255)]"
  by (simp add: pack_H_def encode_entry_lt)

lemma stride2_Cons: "stride2 (x # xs) = x # stride2 (drop 1 xs)"
  by (cases xs) simp_all

lemma decode_Nil [simp]: "decode [] = []"
  by (simp add: decode_def)

lemma decode_single [simp]: "decode [x] = []"
  by (simp add: decode_def)

lemma decode_Cons2 [simp]: "decode (x # y # dat) = decode_pair x y # decode dat"
  by (simp add: decode_def stride2_Cons)

lemma length_decode: "length (decode dat) = length dat div 2"
  by (induction dat rule: stride2.induct) simp_all

lemma decode_take_even: "decode (take (2 * (length dat div 2)) dat) = decode dat"
  by (induction dat rule: stride2.induct) simp_all

lemma length_encode: "\<exists>out. encode dat = Inr out \<and> length out = 2 * length dat"
proof (induction dat)
  case Nil
  show ?case by simp
next
  case (Cons x dat)
  then obtain out where "encode dat = Inr out" "length out = 2 * length dat" by blast
  then show ?case by (simp add: encode_list_nth pack_H_encode_entry)
qed

text \<open>The two bytes of a packed table entry, re-joined and masked, are the entry itself.\<close>

lemma rejoin_entry:
  assumes "v < 65536"
  shows "push_bit 8 (unat (word_of_nat (drop_bit 8 v) :: byte)) OR unat (word_of_nat (v AND 255) :: byte) = v"
proof -
  have hi: "unat (word_of_nat (drop_bit 8 v) :: byte) = drop_bit 8 v"
  proof -
    have "drop_bit 8 v < 256" using assms by (simp add: drop_bit_eq_div)
    then show ?thesis by (simp add: unat_of_nat)
  qed
  have lo: "unat (word_of_nat (v AND 255) :: byte) = take_bit 8 v"
  proof -
    have "v AND 255 = take_bit 8 v"
      by (simp add: take_bit_eq_mask mask_eq_exp_minus_1)
    then show ?thesis by (simp add: unsigned_of_nat)
  qed
  show ?thesis unfolding hi lo
    by (rule bit_eqI) (auto simp: bit_or_iff bit_push_bit_iff bit_drop_bit_eq bit_take_bit_iff)
qed

lemma bit_0x5555: "bit (0x5555::nat) n \<longleftrightarrow> even n \<and> n < 16"
proof (cases "n < 16")
  case True
  then consider "n = 0" | "n = 1" | "n = 2" | "n = 3" | "n = 4" | "n = 5" | "n = 6" | "n = 7"
    | "n = 8" | "n = 9" | "n = 10" | "n = 11" | "n = 12" | "n = 13" | "n = 14" | "n = 15"
    by atomize_elim arith
  then show ?thesis by cases (simp_all add: bit_Suc_0_iff)
next
  case False
  then have "\<not> bit (0x5555::nat) n"
    by (intro not_bit_nat_beyond [of _ 16]) simp_all
  with False show ?thesis by simp
qed

lemma decode_encode_entry: "x < 256 \<Longrightarrow> decode_entry (encode_entry x AND 0x5555) = x"
proof -
  assume x: "x < 256"
  then have x8: "x < 2 ^ 8" by simp
  show ?thesis
  proof (rule bit_eqI)
    fix n
    show "bit (decode_entry (encode_entry x AND 0x5555)) n = bit x n"
    proof (cases "n < 8")
      case True
      then show ?thesis
        by (simp add: bit_decode_entry bit_and_iff bit_encode_entry bit_0x5555)
    next
      case False
      then have "\<not> bit x n" using x8 by (intro not_bit_nat_beyond [of x 8]) simp_all
      with False show ?thesis
        by (simp add: bit_decode_entry bit_and_iff bit_encode_entry bit_0x5555)
    qed
  qed
qed

lemma and_nat_le2: "(m::nat) AND n \<le> n"
proof -
  have "int (m AND n) \<le> int n"
    by (simp add: of_nat_and_eq)
  then show ?thesis by (simp only: of_nat_le_iff)
qed

lemma decode_pair_pack:
  "decode_pair (word_of_nat (drop_bit 8 (encode_entry (unat x)))) (word_of_nat (encode_entry (unat x) AND 255)) = x"
proof -
  let ?v = "encode_entry (unat x)"
  have le: "?v AND 0x5555 \<le> 0x5555"
    by (rule and_nat_le2)
  have "decode_pair (word_of_nat (drop_bit 8 ?v)) (word_of_nat (?v AND 255))
      = decode_list ! (?v AND 0x5555)"
    by (simp only: decode_pair_def rejoin_entry [OF encode_entry_lt])
  also have "\<dots> = word_of_nat (decode_entry (?v AND 0x5555))"
    by (rule decode_list_nth [OF le])
  also have "\<dots> = word_of_nat (unat x)"
    by (simp only: decode_encode_entry [OF unat_byte_lt])
  finally show ?thesis by simp
qed

lemma decode_encode: "\<exists>e. encode b = Inr e \<and> decode e = b"
proof (induction b)
  case Nil
  show ?case by simp
next
  case (Cons x b)
  then obtain e where e: "encode b = Inr e" "decode e = b" by blast
  then show ?case by (simp add: encode_list_nth pack_H_encode_entry decode_pair_pack)
qed



lemma uint_and_aa: "uint (x::byte) AND 0xaa = 0 \<longleftrightarrow> x AND 0xAA = 0"
proof -
  have "uint (x AND 0xAA) = uint x AND 0xaa"
    by (simp add: uint_and)
  then show ?thesis
    by (metis uint_0_iff)
qed

lemma byte_and_255: "(w::byte) AND 255 = w"
proof -
  have "(255::byte) = mask 8" by (simp add: mask_eq_exp_minus_1)
  then have "w AND 255 = take_bit 8 w" by (simp only: take_bit_eq_mask)
  then show ?thesis by (simp add: take_bit_word_eq_self)
qed

lemma mfm_step_word:
  "\<exists>w. (word_of_int (mfm_step y x) :: byte) = (if x AND 0xAA = 0 then x OR (w AND 0xAA) else x)"
proof -
  define y1 where "y1 = push_bit 8 y OR uint x"
  define c where "c = NOT (drop_bit 1 y1 OR push_bit 1 y1)"
  have hi: "(push_bit 8 (word_of_int y) :: byte) = 0"
    by (simp add: push_bit_word_beyond)
  have y1w: "(word_of_int y1 :: byte) = x"
    by (simp add: y1_def of_int_or_eq of_int_push_bit hi)
  have m: "(0xaaaa :: byte) = 0xAA"
    by simp
  show ?thesis
  proof (cases "x AND 0xAA = 0")
    case True
    then have "uint x AND 0xaa = 0" by (simp only: uint_and_aa)
    then have "mfm_step y x = (y1 OR (c AND 0xaaaa)) AND 255"
      unfolding mfm_step_def Let_def y1_def c_def by (simp only: if_True refl simp_thms)
    then have "(word_of_int (mfm_step y x) :: byte)
        = (word_of_int y1 OR (word_of_int c AND word_of_int 0xaaaa)) AND word_of_int 255"
      by (simp only: of_int_and_eq of_int_or_eq)
    also have "\<dots> = x OR (word_of_int c AND 0xAA)"
      by (simp only: y1w m of_int_numeral byte_and_255)
    finally show ?thesis using True by auto
  next
    case False
    then have "uint x AND 0xaa \<noteq> 0" by (simp only: uint_and_aa not_False_eq_True)
    then have "mfm_step y x = y1 AND 255"
      unfolding mfm_step_def Let_def y1_def by (simp only: if_False refl simp_thms)
    then have "(word_of_int (mfm_step y x) :: byte) = word_of_int y1 AND word_of_int 255"
      by (simp only: of_int_and_eq)
    also have "\<dots> = x"
      by (simp only: y1w of_int_numeral byte_and_255)
    finally show ?thesis using False by simp
  qed
qed

lemma mfm_step_data_bits: "(word_of_int (mfm_step y x) :: byte) AND 0x55 = x AND 0x55"
proof -
  obtain w where w: "(word_of_int (mfm_step y x) :: byte) = (if x AND 0xAA = 0 then x OR (w AND 0xAA) else x)"
    using mfm_step_word by blast
  have "(x OR (w AND 0xAA)) AND 0x55 = x AND 0x55"
    by (simp add: bit.conj_disj_distrib2 and.assoc)
  with w show ?thesis by (simp split: if_splits)
qed

lemma mfm_step_only_sets: "(word_of_int (mfm_step y x) :: byte) AND x = x"
proof -
  obtain w where w: "(word_of_int (mfm_step y x) :: byte) = (if x AND 0xAA = 0 then x OR (w AND 0xAA) else x)"
    using mfm_step_word by blast
  have "(x OR (w AND 0xAA)) AND x = x"
    by (simp add: and.commute)
  with w show ?thesis by (simp split: if_splits)
qed

lemma mfm_step_unchanged: "x AND 0xAA \<noteq> 0 \<Longrightarrow> (word_of_int (mfm_step y x) :: byte) = x"
  using mfm_step_word [of y x] by auto

lemma length_mfm_encode_loop: "length (mfm_encode_loop y dat) = length dat"
  by (induction dat arbitrary: y) (simp_all add: Let_def)

lemma mfm_encode_loop_nth:
  "i < length dat \<Longrightarrow> \<exists>y'. mfm_encode_loop y dat ! i = word_of_int (mfm_step y' (dat ! i))"
proof (induction dat arbitrary: y i)
  case Nil
  then show ?case by simp
next
  case (Cons x dat)
  show ?case
  proof (cases i)
    case 0
    then show ?thesis by (auto simp: Let_def)
  next
    case (Suc j)
    with Cons.prems have "j < length dat" by simp
    from Cons.IH [OF this, of "mfm_step y x"] Suc show ?thesis by (simp add: Let_def)
  qed
qed

lemma bit_0x55: "bit (0x55::nat) n \<longleftrightarrow> even n \<and> n < 8"
proof (cases "n < 8")
  case True
  then consider "n = 0" | "n = 1" | "n = 2" | "n = 3" | "n = 4" | "n = 5" | "n = 6" | "n = 7"
    by atomize_elim arith
  then show ?thesis by cases (simp_all add: bit_Suc_0_iff)
next
  case False
  then have "\<not> bit (0x55::nat) n"
    by (intro not_bit_nat_beyond [of _ 8]) simp_all
  with False show ?thesis by simp
qed

lemma mask_pair_nat:
  assumes "a < 256" and "b < 256"
  shows "(push_bit 8 a OR b) AND 0x5555 = push_bit 8 (a AND 0x55) OR (b AND (0x55::nat))"
proof (rule bit_eqI)
  fix n :: nat
  have a: "\<not> bit a m" if "8 \<le> m" for m
    using assms(1) that by (intro not_bit_nat_beyond [of a 8]) simp_all
  have b: "\<not> bit b m" if "8 \<le> m" for m
    using assms(2) that by (intro not_bit_nat_beyond [of b 8]) simp_all
  consider "n < 8" | "8 \<le> n" "n < 16" | "16 \<le> n" by linarith
  then show "bit ((push_bit 8 a OR b) AND 0x5555) n
      = bit (push_bit 8 (a AND 0x55) OR (b AND (0x55::nat))) n"
  proof cases
    case 1
    then show ?thesis
      by (simp add: bit_and_iff bit_or_iff bit_push_bit_iff bit_0x5555 bit_0x55 del: push_bit_and)
  next
    case 2
    then have "even n \<longleftrightarrow> even (n - 8)" and "n - 8 < 8" by simp_all
    with 2 b [of n] show ?thesis
      by (simp add: bit_and_iff bit_or_iff bit_push_bit_iff bit_0x5555 bit_0x55 del: push_bit_and)
  next
    case 3
    with a [of "n - 8"] b [of n] show ?thesis
      by (simp add: bit_and_iff bit_or_iff bit_push_bit_iff bit_0x5555 bit_0x55 del: push_bit_and)
  qed
qed

lemma decode_pair_data_bits:
  assumes "a' AND 0x55 = a AND 0x55" and "b' AND 0x55 = b AND 0x55"
  shows "decode_pair a' b' = decode_pair a b"
proof -
  have k: "(push_bit 8 (unat v) OR unat w) AND 0x5555
      = push_bit 8 (unat (v AND 0x55)) OR unat (w AND 0x55)" for v w :: byte
    by (simp add: unsigned_and_eq mask_pair_nat [OF unat_byte_lt unat_byte_lt])
  show ?thesis by (simp only: decode_pair_def k assms)
qed

lemma decode_data_bits:
  "length xs = length ys \<Longrightarrow> \<forall>i < length xs. xs ! i AND 0x55 = ys ! i AND 0x55
     \<Longrightarrow> decode xs = decode ys"
proof (induction xs arbitrary: ys rule: stride2.induct)
  case 1
  then show ?case by simp
next
  case (2 x)
  then obtain y where "ys = [y]" by (cases ys) auto
  then show ?case by simp
next
  case (3 x1 x2 xs)
  from 3(2) obtain y1 r where r: "ys = y1 # r" by (cases ys) simp_all
  with 3(2) obtain y2 ys' where "r = y2 # ys'" by (cases r) simp_all
  with r have ys: "ys = y1 # y2 # ys'" by simp
  note nth = 3(3) [rule_format]
  have h1: "x1 AND 0x55 = y1 AND 0x55" using nth [of 0] by (simp add: ys)
  have h2: "x2 AND 0x55 = y2 AND 0x55" using nth [of 1] by (simp add: ys)
  have "\<forall>i < length xs. xs ! i AND 0x55 = ys' ! i AND 0x55"
  proof (intro allI impI)
    fix i assume "i < length xs"
    then show "xs ! i AND 0x55 = ys' ! i AND 0x55"
      using nth [of "Suc (Suc i)"] by (simp add: ys)
  qed
  moreover from 3(2) ys have "length xs = length ys'" by simp
  ultimately have "decode xs = decode ys'" by (rule 3(1) [rotated])
  then show ?case by (simp add: ys decode_pair_data_bits [OF h1 h2])
qed

lemma mfm_encode_data_bits:
  "i < length dat \<Longrightarrow> mfm_encode dat ! i AND 0x55 = dat ! i AND 0x55"
  using mfm_encode_loop_nth [of i dat 0] by (auto simp: mfm_encode_def mfm_step_data_bits)

lemma decode_mfm_encode: "decode (mfm_encode e) = decode e"
  by (rule decode_data_bits) (simp_all add: mfm_encode_def length_mfm_encode_loop mfm_encode_data_bits [unfolded mfm_encode_def])

subsection \<open>Claims about the modulation codec\<close>

text \<open>
  Claim C1. For every byte sequence \<open>b\<close>, \<^verbatim>\<open>encode\<close> returns (it does not raise), and
  decoding what it returns gives \<open>b\<close> back: \<^verbatim>\<open>decode(encode(b)) == b\<close>.
\<close>

theorem decode_encode_roundtrip: "\<exists>e. encode b = Inr e \<and> decode e = b"
  by (rule decode_encode)

text \<open>
  Claim C10. \<^verbatim>\<open>encode\<close> returns exactly twice as many bytes as it is given;
  \<^verbatim>\<open>decode\<close> returns \<^verbatim>\<open>len(dat) // 2\<close> bytes, and its result is the result on the
  longest prefix of even length, so that a trailing unpaired byte has no effect.
\<close>

theorem codec_lengths:
  "(\<exists>out. encode b = Inr out \<and> length out = 2 * length b)
   \<and> length (decode d) = length d div 2
   \<and> decode d = decode (take (2 * (length d div 2)) d)"
  by (simp add: length_encode length_decode decode_take_even)

text \<open>
  Claim C2. \<^verbatim>\<open>mfm_encode\<close> keeps the length of its input. In each byte it leaves the
  data bits (mask \<^verbatim>\<open>0x55\<close>) as they are and clears no bit, so it can only set clock
  bits (mask \<^verbatim>\<open>0xAA\<close>); a byte \<^verbatim>\<open>x\<close> with \<^verbatim>\<open>(x & 0xAA) != 0\<close> is copied unchanged.
  Hence \<^verbatim>\<open>decode(mfm_encode(encode(b))) == b\<close> for every byte sequence \<open>b\<close>.
\<close>

theorem mfm_encode_clock_only:
  "length (mfm_encode dat) = length dat
   \<and> (\<forall>i < length dat.
         mfm_encode dat ! i AND 0x55 = dat ! i AND 0x55
       \<and> mfm_encode dat ! i AND dat ! i = dat ! i
       \<and> (dat ! i AND 0xAA \<noteq> 0 \<longrightarrow> mfm_encode dat ! i = dat ! i))
   \<and> (\<exists>e. encode b = Inr e \<and> decode (mfm_encode e) = b)"
proof (intro conjI allI impI)
  show "length (mfm_encode dat) = length dat"
    by (simp add: mfm_encode_def length_mfm_encode_loop)
next
  fix i assume "i < length dat"
  then show "mfm_encode dat ! i AND 0x55 = dat ! i AND 0x55"
    by (rule mfm_encode_data_bits)
next
  fix i assume "i < length dat"
  then obtain y' where "mfm_encode dat ! i = word_of_int (mfm_step y' (dat ! i))"
    using mfm_encode_loop_nth [of i dat 0] by (auto simp: mfm_encode_def)
  then show "mfm_encode dat ! i AND dat ! i = dat ! i"
    by (simp add: mfm_step_only_sets)
next
  fix i assume "i < length dat" and nz: "dat ! i AND 0xAA \<noteq> 0"
  then obtain y' where "mfm_encode dat ! i = word_of_int (mfm_step y' (dat ! i))"
    using mfm_encode_loop_nth [of i dat 0] by (auto simp: mfm_encode_def)
  then show "mfm_encode dat ! i = dat ! i"
    by (simp add: mfm_step_unchanged [OF nz])
next
  obtain e where "encode b = Inr e" "decode e = b"
    using decode_encode by blast
  then show "\<exists>e. encode b = Inr e \<and> decode (mfm_encode e) = b"
    by (simp add: decode_mfm_encode)
qed

theorem mfm_encode_clock_only_witness:
  "(1::nat) < length [0x44, 0xFF :: byte]
   \<and> [0x44, 0xFF :: byte] ! 1 AND 0xAA \<noteq> 0
   \<and> mfm_encode [0x44, 0xFF] ! 1 = 0xFF
   \<and> mfm_encode [0x44, 0xFF] ! 0 AND 0x55 = 0x44
   \<and> length (mfm_encode [0x44, 0xFF]) = 2"
proof -
  let ?dat = "[0x44, 0xFF :: byte]"
  note inst = mfm_encode_clock_only [of ?dat "[]"]
  have l0: "(0::nat) < length ?dat" and l1: "(1::nat) < length ?dat"
    by simp_all
  have nz: "?dat ! 1 AND 0xAA \<noteq> 0"
    by simp
  from inst have len: "length (mfm_encode ?dat) = length ?dat"
    by (rule conjunct1)
  from inst have each: "\<forall>i < length ?dat.
         mfm_encode ?dat ! i AND 0x55 = ?dat ! i AND 0x55
       \<and> mfm_encode ?dat ! i AND ?dat ! i = ?dat ! i
       \<and> (?dat ! i AND 0xAA \<noteq> 0 \<longrightarrow> mfm_encode ?dat ! i = ?dat ! i)"
    by blast
  from each l1 nz have "mfm_encode ?dat ! 1 = ?dat ! 1"
    by blast
  moreover from each l0 have "mfm_encode ?dat ! 0 AND 0x55 = ?dat ! 0 AND 0x55"
    by blast
  ultimately show ?thesis
    using len l1 nz by simp
qed

subsection \<open>from\_config on the example configuration\<close>

lemmas gap_defs = gap_4a_of_def gap_1_of_def gap_2_of_def gap_3_of_def
      gap_presync_def GAP_1_def GAP_2_def GAP_4A_def GAP_3_def

lemma list_update_numeral: "(x # xs)[numeral k := v] = x # xs[pred_numeral k := v]"
  by (simp add: numeral_eq_Suc)

lemma replicate_numeral: "replicate (numeral k) x = x # replicate (pred_numeral k) x"
  by (simp add: numeral_eq_Suc)

lemma length_bad_sector_fill: "length (bad_sector_fill k) = 16 * (k div 16)"
  by (simp add: bad_sector_fill_def length_concat sum_list_replicate)

lemma content_tracklen_cfg9: "content_tracklen cfg9 = Inr 84992"
  by (simp add: content_tracklen_def cfg9_def gap_defs sec_n_def upt_rec)

lemma make_sec_map_cfg9: "make_sec_map cfg9 0 0 = Some [0, 1, 2, 3, 4, 5, 6, 7, 8]"
  by (simp add: make_sec_map_def cfg9_def upt_rec replicate_numeral next_free.simps
      list_update_numeral)

lemma select_rate_cfg9: "select_rate cfg9 84992 = Inr 250"
  by (simp add: select_rate_def cfg9_def)

lemma place_sectors_cfg9:
  "place_sectors cfg9 0 0 22 84 [0, 1, 2, 3, 4, 5, 6, 7, 8] 146 =
   Inr [sector9 158 1, sector9 816 2, sector9 1474 3, sector9 2132 4, sector9 2790 5,
        sector9 3448 6, sector9 4106 7, sector9 4764 8, sector9 5422 9]"
  by (simp add: place_sectors.simps sec_n_def cfg9_def gap_presync_def Let_def sector9_def
      new_IDAM_def)

lemma from_config_cfg9:
  "from_config cfg9 0 0 = Some (Inr
   \<lparr>cyl = 0, head = 0, iams = [new_IAM (92 * 16) (96 * 16)],
    sectors = [sector9 158 1, sector9 816 2, sector9 1474 3, sector9 2132 4, sector9 2790 5,
        sector9 3448 6, sector9 4106 7, sector9 4764 8, sector9 5422 9],
    has_iam = False, raw_iams = [], raw_sectors = [], img_bps = None, t_nsec = Some 9,
    time_per_rev = Some (60 / 300), clock = Some (60 / 300 / 100000)\<rparr>)"
proof -
  have c: "cfg_secs cfg9 = 9" "cfg_gap2 cfg9 = None" "cfg_gap3 cfg9 = None" "cfg_rpm cfg9 = 300"
    "cfg_img_bps cfg9 = None" "cfg_h cfg9 = None" "sec_n cfg9 0 = Inr 2"
    "gap_1_of cfg9 = Some 50" "gap_2_of cfg9 = 22" "gap_3_of cfg9 = 0" "gap_4a_of cfg9 = 80"
    by (simp_all add: cfg9_def sec_n_def gap_defs)
  show ?thesis
    unfolding from_config_def
    by (simp add: c content_tracklen_cfg9 select_rate_cfg9 make_sec_map_cfg9 Let_def GAP_3_def
        gap_presync_def IBM_MFM_Formatted_def place_sectors_cfg9)
qed

lemma sector9_simps:
  "start (sector9 pos r) = int (pos * 16)"
  "idam_r (idam (sector9 pos r)) = r"
  "idam_n (idam (sector9 pos r)) = 2"
  "length (data (dam (sector9 pos r))) = 512"
  by (simp_all add: sector9_def new_Sector_def new_IDAM_def new_DAM_def length_bad_sector_fill)

text \<open>
  Claim C6. For \<open>cfg9\<close> on cylinder 0, head 0, \<^verbatim>\<open>from_config\<close> returns a track with
  exactly nine sectors; in the order of the list their IDs are 1 to 9 and their start
  offsets increase strictly; each has size code 2 and a data field of \<^verbatim>\<open>128 << 2\<close>,
  that is 512, bytes; \<^verbatim>\<open>time_per_rev\<close> is 60/300 and \<^verbatim>\<open>clock\<close> is that divided by the
  100000 bit cells of the track, which is the 2 microseconds of double density.
\<close>

theorem from_config_nine_sectors:
  "\<exists>t. from_config cfg9 0 0 = Some (Inr t)
     \<and> length (sectors t) = 9
     \<and> map (\<lambda>s. idam_r (idam s)) (sectors t) = [1, 2, 3, 4, 5, 6, 7, 8, 9]
     \<and> sorted_wrt (<) (map start (sectors t))
     \<and> map (\<lambda>s. idam_n (idam s)) (sectors t) = replicate 9 2
     \<and> map (\<lambda>s. length (data (dam s))) (sectors t) = replicate 9 (push_bit 2 128)
     \<and> push_bit 2 128 = (512 :: nat)
     \<and> time_per_rev t = Some (60 / 300)
     \<and> clock t = Some (60 / 300 / 100000)
     \<and> clock t = Some (1 / 500000)"
  by (simp add: from_config_cfg9 sector9_simps replicate_numeral)

subsection \<open>Automatic data rate\<close>

lemma rate_loop_123:
  "rate_loop rpm0 len [1, 2, 3] 0 =
     (if len < maxlen rpm0 1 then 1 else if len < maxlen rpm0 2 then 2 else 3)"
  by simp

text \<open>
  Claim C7, as amended. For a configuration with \<^verbatim>\<open>rate == 0\<close> and a rotational speed
  other than zero, and \<open>tracklen\<close> the bit-cell length computed for its content, the
  selected rate is \<^verbatim>\<open>125 << i\<close> for a tier \<open>i\<close> of 1, 2, 3 (250, 500, 1000); no
  smaller tier has a maximum length \<open>maxlen\<close> above \<open>tracklen\<close>; and either tier
  \<open>i\<close> has, or no tier has and \<open>i\<close> is 3.
\<close>

theorem select_rate_auto:
  assumes "cfg_rate cfg = 0" and "cfg_rpm cfg \<noteq> 0" and "content_tracklen cfg = Inr tracklen"
  shows "\<exists>i \<in> {1, 2, 3}.
           select_rate cfg tracklen = Inr (push_bit i 125)
         \<and> (\<forall>j \<in> {1, 2, 3}. j < i \<longrightarrow> \<not> tracklen < maxlen (cfg_rpm cfg) j)
         \<and> (tracklen < maxlen (cfg_rpm cfg) i
            \<or> (i = 3 \<and> (\<forall>j \<in> {1, 2, 3}. \<not> tracklen < maxlen (cfg_rpm cfg) j)))"
  using assms by (auto simp: select_rate_def)

theorem select_rate_auto_witness:
  "cfg_rate (cfg9\<lparr>cfg_rate := 0\<rparr>) = 0 \<and> cfg_rpm (cfg9\<lparr>cfg_rate := 0\<rparr>) \<noteq> 0
   \<and> content_tracklen (cfg9\<lparr>cfg_rate := 0\<rparr>) = Inr 84992
   \<and> select_rate (cfg9\<lparr>cfg_rate := 0\<rparr>) 84992 = Inr 250
   \<and> 84992 < maxlen 300 1"
proof -
  let ?cfg = "cfg9\<lparr>cfg_rate := 0\<rparr>"
  have r: "cfg_rate ?cfg = 0" and p: "cfg_rpm ?cfg \<noteq> 0" and p300: "cfg_rpm ?cfg = 300"
    by (simp_all add: cfg9_def)
  have ct: "content_tracklen ?cfg = Inr 84992"
    by (simp add: content_tracklen_def cfg9_def gap_defs sec_n_def upt_rec)
  have m: "maxlen 300 1 = 105000"
    by (simp add: maxlen_def)
  from select_rate_auto [OF r p ct] obtain i where i: "i \<in> {1, 2, 3}"
    "select_rate ?cfg 84992 = Inr (push_bit i 125)"
    "\<forall>j \<in> {1, 2, 3}. j < i \<longrightarrow> \<not> 84992 < maxlen (cfg_rpm ?cfg) j"
    by blast
  have "i = 1"
  proof (rule ccontr)
    assume "i \<noteq> 1"
    with i(1) have "1 < i" by auto
    with i(3) have "\<not> 84992 < maxlen (cfg_rpm ?cfg) 1" by blast
    then show False by (simp add: p300 maxlen_def)
  qed
  with i(2) r p ct m show ?thesis by simp
qed


text \<open>
  The claim as stated fails for \<open>cfg_big\<close>: its content is 528608 bit cells long, no
  tier's maximum exceeds that, and the rate selected is 1000. \<^verbatim>\<open>from_config\<close> accepts
  the configuration (lemma \<open>from_config_cfg_big\<close>).
\<close>

lemma content_tracklen_cfg_big: "content_tracklen cfg_big = Inr 528608"
  by (simp add: content_tracklen_def cfg_big_def gap_defs sec_n_def upt_rec)

lemma sec_n_ok: "cfg_sz cfg \<noteq> [] \<Longrightarrow> \<exists>n. sec_n cfg i = Inr n"
  by (simp add: sec_n_def)

lemma place_sectors_total:
  "cfg_sz cfg \<noteq> [] \<Longrightarrow>
     (\<forall>e. place_sectors cfg cy h g2 g3 secmap pos \<noteq> Inl e)
     \<and> (\<forall>ss. place_sectors cfg cy h g2 g3 secmap pos = Inr ss \<longrightarrow> length ss = length secmap)"
proof (induction secmap arbitrary: pos)
  case Nil
  show ?case by (simp add: place_sectors.simps)
next
  case (Cons sec rest)
  from sec_n_ok [OF Cons.prems] obtain n where n: "sec_n cfg (nat sec) = Inr n" by blast
  note IH = Cons.IH [OF Cons.prems]
  have no: "(place_sectors cfg cy h g2 g3 rest p = Inl e) = False" for p e
    using IH [of p] by simp
  have len: "place_sectors cfg cy h g2 g3 rest p = Inr ss \<Longrightarrow> length ss = length rest" for p ss
    using IH [of p] by simp
  show ?case
    by (subst (1 2) place_sectors.simps) (auto simp: n Let_def no dest: len split: sum.splits)
qed

lemma place_sectors_ok:
  assumes "cfg_sz cfg \<noteq> []"
  shows "\<exists>ss. place_sectors cfg cy h g2 g3 secmap pos = Inr ss \<and> length ss = length secmap"
proof (cases "place_sectors cfg cy h g2 g3 secmap pos")
  case (Inl e)
  with place_sectors_total [OF assms, of cy h g2 g3 secmap pos] show ?thesis by simp
next
  case (Inr ss)
  with place_sectors_total [OF assms, of cy h g2 g3 secmap pos] show ?thesis by simp
qed

lemma make_sec_map_cfg_big: "make_sec_map cfg_big 0 0 = Some [0, 1]"
  by (simp add: make_sec_map_def cfg_big_def upt_rec replicate_numeral next_free.simps
      list_update_numeral)

lemma from_config_cfg_big:
  "\<exists>t. from_config cfg_big 0 0 = Some (Inr t) \<and> length (sectors t) = 2
     \<and> clock t = Some (60 / 300 / 529216)"
proof -
  have c: "cfg_secs cfg_big = 2" "cfg_gap2 cfg_big = None" "cfg_gap3 cfg_big = None"
    "cfg_rpm cfg_big = 300" "cfg_rate cfg_big = 0"
    "cfg_img_bps cfg_big = None" "cfg_h cfg_big = None" "sec_n cfg_big 0 = Inr 7"
    "gap_1_of cfg_big = Some 50" "gap_2_of cfg_big = 22" "gap_3_of cfg_big = 0"
    "gap_4a_of cfg_big = 80"
    by (simp_all add: cfg_big_def sec_n_def gap_defs)
  have sr: "select_rate cfg_big 528608 = Inr 1000"
    by (simp add: select_rate_def maxlen_def c)
  have "cfg_sz cfg_big \<noteq> []"
    by (simp add: cfg_big_def)
  from place_sectors_ok [OF this, of 0 0 41 0 "[0, 1]" 146]
  obtain ss where ps: "place_sectors cfg_big 0 0 41 0 [0, 1] 146 = Inr ss" "length ss = 2"
    by auto
  show ?thesis
    unfolding from_config_def
    by (simp add: c content_tracklen_cfg_big sr make_sec_map_cfg_big Let_def GAP_3_def
        gap_presync_def IBM_MFM_Formatted_def ps)
qed

theorem select_rate_oversize_counterexample:
  "cfg_rate cfg_big = 0
   \<and> content_tracklen cfg_big = Inr 528608
   \<and> select_rate cfg_big 528608 = Inr 1000
   \<and> \<not> 528608 < maxlen (cfg_rpm cfg_big) 1
   \<and> \<not> 528608 < maxlen (cfg_rpm cfg_big) 2
   \<and> \<not> 528608 < maxlen (cfg_rpm cfg_big) 3"
proof -
  have "cfg_rate cfg_big = 0" and "cfg_rpm cfg_big = 300"
    by (simp_all add: cfg_big_def)
  moreover have "select_rate cfg_big 528608 = Inr 1000"
    by (simp add: select_rate_def maxlen_def cfg_big_def)
  moreover have "maxlen 300 1 = 105000" and "maxlen 300 2 = 205000" and "maxlen 300 3 = 405000"
    by (simp_all add: maxlen_def)
  ultimately show ?thesis
    using content_tracklen_cfg_big by simp
qed

subsection \<open>The image functions\<close>

lemma set_img_loop_keys:
  "map (\<lambda>s. idam_r (idam s)) (set_img_loop bps tdat pos ss) = map (\<lambda>s. idam_r (idam s)) ss"
  "map (\<lambda>s. idam_n (idam s)) (set_img_loop bps tdat pos ss) = map (\<lambda>s. idam_n (idam s)) ss"
  "map start (set_img_loop bps tdat pos ss) = map start ss"
  "length (set_img_loop bps tdat pos ss) = length ss"
  by (induction ss arbitrary: pos) (simp_all add: Let_def)

lemma set_img_loop_sizes:
  "map sector_size (set_img_loop bps tdat pos ss) = map sector_size ss"
  by (induction ss arbitrary: pos) (simp_all add: Let_def sector_size_def)

lemma set_img_loop_crc:
  "s \<in> set (set_img_loop bps tdat pos ss) \<Longrightarrow> crc s = 0 \<and> idam_crc (idam s) = 0 \<and> dam_crc (dam s) = 0"
  by (induction ss arbitrary: pos) (auto simp: Let_def)

lemma set_img_loop_data:
  "stride_fits bps ss \<Longrightarrow> pos + capacity ss \<le> length tdat \<Longrightarrow>
     concat (map (\<lambda>s. data (dam s)) (set_img_loop bps tdat pos ss)) = take (capacity ss) (drop pos tdat)
     \<and> map (\<lambda>s. length (data (dam s))) (set_img_loop bps tdat pos ss) = map sector_size ss"
proof (induction ss arbitrary: pos)
  case Nil
  then show ?case by (simp add: capacity_def)
next
  case (Cons s ss)
  let ?k = "sector_size s"
  from Cons.prems(1) have p': "(case bps of None \<Rightarrow> pos + push_bit (idam_n (idam s)) 128
      | Some b \<Rightarrow> pos + b) = pos + push_bit (idam_n (idam s)) 128"
    by (auto simp: stride_fits_def sector_size_def split: option.splits)
  from Cons.prems(1) have sf: "stride_fits bps ss"
    by (auto simp: stride_fits_def split: option.splits)
  from Cons.prems(2) have le: "(pos + ?k) + capacity ss \<le> length tdat"
    by (simp add: capacity_def)
  note IH = Cons.IH [OF sf le]
  have step: "set_img_loop bps tdat pos (s # ss) =
      s\<lparr>crc := 0, idam := (idam s)\<lparr>idam_crc := 0\<rparr>,
        dam := (dam s)\<lparr>dam_crc := 0, data := take ?k (drop pos tdat)\<rparr>\<rparr>
      # set_img_loop bps tdat (pos + ?k) ss"
    using p' by (simp add: Let_def sector_size_def)
  have cap: "capacity (s # ss) = ?k + capacity ss"
    by (simp add: capacity_def)
  have len: "length (take ?k (drop pos tdat)) = ?k"
    using le by simp
  have "take ?k (drop pos tdat) @ take (capacity ss) (drop (pos + ?k) tdat)
      = take (?k + capacity ss) (drop pos tdat)"
    by (simp only: take_add drop_drop add.commute [of "sector_size s" pos])
  with IH len show ?case
    by (simp add: step cap del: set_img_loop.simps)
qed

lemma get_img_loop_exact:
  "stride_fits bps ss \<Longrightarrow> map (\<lambda>s. length (data (dam s))) ss = map sector_size ss \<Longrightarrow>
     get_img_loop bps ss = Inr (concat (map (\<lambda>s. data (dam s)) ss))"
proof (induction ss)
  case Nil
  show ?case by simp
next
  case (Cons s ss)
  from Cons.prems(1) have sf: "stride_fits bps ss"
    by (auto simp: stride_fits_def split: option.splits)
  from Cons.prems(2) have l: "map (\<lambda>s. length (data (dam s))) ss = map sector_size ss"
    and ls: "length (data (dam s)) = sector_size s"
    by simp_all
  from Cons.prems(1) ls have "bps = None \<or> bps = Some (length (data (dam s)))"
    by (auto simp: stride_fits_def split: option.splits)
  with Cons.IH [OF sf l] show ?case
    by auto
qed

lemma filter_key_single:
  assumes "distinct (map f ys)" and "k \<in> set ys"
  shows "filter (\<lambda>x. f k = f x) ys = [k]"
  using assms
proof (induction ys)
  case Nil
  then show ?case by simp
next
  case (Cons y ys)
  show ?case
  proof (cases "k = y")
    case True
    from Cons.prems(1) have "\<forall>x \<in> set ys. f y \<noteq> f x" by auto
    then have "filter (\<lambda>x. f y = f x) ys = []" by (simp add: filter_empty_conv)
    with True show ?thesis by simp
  next
    case False
    with Cons.prems have k: "k \<in> set ys" and d: "distinct (map f ys)" by auto
    from Cons.prems(1) have "f y \<notin> f ` set ys" by simp
    with k have "f k \<noteq> f y" by (metis imageI)
    with Cons.IH [OF d k] show ?thesis by simp
  qed
qed

lemma sort_key_of_permutation:
  assumes "mset xs = mset ys" and "sorted (map f ys)" and "distinct (map f ys)"
  shows "sort_key f xs = ys"
proof (rule properties_for_sort_key)
  show "mset ys = mset xs" using assms(1) by simp
  show "sorted (map f ys)" by (rule assms(2))
  fix k assume k: "k \<in> set ys"
  have "mset (map f xs) = mset (map f ys)" using assms(1) by (metis mset_map)
  with assms(3) have dx: "distinct (map f xs)" by (metis distinct_count_atmost_1 set_mset_mset)
  from k assms(1) have kx: "k \<in> set xs" by (metis set_mset_mset)
  show "filter (\<lambda>x. f k = f x) ys = filter (\<lambda>x. f k = f x) xs"
    by (simp only: filter_key_single [OF assms(3) k] filter_key_single [OF dx kx])
qed

lemma map_sort_key: "map f (sort_key f xs) = sort (map f xs)"
  by (rule properties_for_sort [symmetric]) simp_all

lemma capacity_sort_key: "capacity (sort_key f ss) = capacity ss"
proof -
  have "mset (map sector_size (sort_key f ss)) = mset (map sector_size ss)"
    by simp
  then show ?thesis
    unfolding capacity_def by (metis sum_mset_sum_list)
qed

lemma foldl_capacity: "foldl (\<lambda>x y. x + push_bit (idam_n (idam y)) 128) a ss = a + capacity ss"
  by (induction ss arbitrary: a) (simp_all add: capacity_def sector_size_def)

lemma stride_capacity: "stride_fits (Some b) ss \<Longrightarrow> length ss * b = capacity ss"
  by (induction ss) (simp_all add: stride_fits_def capacity_def)

lemma stride_fits_sort_key: "stride_fits bps (sort_key f ss) = stride_fits bps ss"
  by (simp add: stride_fits_def list_all_iff split: option.splits)

lemma length_pad: "k \<le> length (if length buf < k then buf @ replicate (k - length buf) (0::byte) else buf)"
  by simp

lemma take_pad:
  "take k (if length buf < k then buf @ replicate (k - length buf) (0::byte) else buf)
     = pad_or_truncate k buf"
  by (simp add: pad_or_truncate_def)

text \<open>
  Claim C5, as amended. \<^verbatim>\<open>set_img_track\<close> always clears the CRC of every sector, ID
  field and data field. When the sector IDs of the track are pairwise distinct and a
  configured stride \<^verbatim>\<open>img_bps\<close> equals the size \<^verbatim>\<open>128 << n\<close> of every sector, it returns
  the total sector capacity, \<^verbatim>\<open>get_img_track\<close> afterwards returns the buffer padded
  with zeros or cut to that capacity, and the sectors taken in ascending ID order hold
  consecutive slices of that buffer, each of its sector's size.
\<close>

theorem img_track_roundtrip:
  "(case set_img_track t buf of (t', totsize) \<Rightarrow>
      (\<forall>s \<in> set (sectors t'). crc s = 0 \<and> idam_crc (idam s) = 0 \<and> dam_crc (dam s) = 0)
    \<and> (distinct (map (\<lambda>s. idam_r (idam s)) (sectors t)) \<and> stride_fits (img_bps t) (sectors t)
        \<longrightarrow> totsize = capacity (sectors t)
          \<and> get_img_track t' = Inr (pad_or_truncate totsize buf)
          \<and> (let ss = sort_key (\<lambda>s. idam_r (idam s)) (sectors t') in
               concat (map (\<lambda>s. data (dam s)) ss) = pad_or_truncate totsize buf
             \<and> map (\<lambda>s. length (data (dam s))) ss = map sector_size ss
             \<and> map (\<lambda>s. idam_r (idam s)) ss = sort (map (\<lambda>s. idam_r (idam s)) (sectors t)))))"
proof -
  let ?r = "\<lambda>s. idam_r (idam s)"
  define ss0 where "ss0 = sort_key ?r (sectors t)"
  define totsize where "totsize = (case img_bps t of Some b \<Rightarrow> length ss0 * b
      | None \<Rightarrow> foldl (\<lambda>x y. x + push_bit (idam_n (idam y)) 128) 0 ss0)"
  define tdat where "tdat = (if length buf < totsize
      then buf @ replicate (totsize - length buf) 0 else buf)"
  define ss1 where "ss1 = set_img_loop (img_bps t) tdat 0 ss0"
  define t' where "t' = t\<lparr>sectors := sort_key start ss1\<rparr>"
  have res: "set_img_track t buf = (t', totsize)"
    unfolding set_img_track_def Let_def t'_def ss1_def tdat_def totsize_def ss0_def
    by (rule refl)
  have crcs: "\<forall>s \<in> set (sectors t'). crc s = 0 \<and> idam_crc (idam s) = 0 \<and> dam_crc (dam s) = 0"
    using set_img_loop_crc [of _ "img_bps t" tdat 0 ss0] by (simp add: t'_def ss1_def)
  have rt: "totsize = capacity (sectors t)
          \<and> get_img_track t' = Inr (pad_or_truncate totsize buf)
          \<and> (let ss = sort_key ?r (sectors t') in
               concat (map (\<lambda>s. data (dam s)) ss) = pad_or_truncate totsize buf
             \<and> map (\<lambda>s. length (data (dam s))) ss = map sector_size ss
             \<and> map ?r ss = sort (map ?r (sectors t)))"
    if d: "distinct (map ?r (sectors t))" and sf: "stride_fits (img_bps t) (sectors t)"
  proof -
    have sf0: "stride_fits (img_bps t) ss0"
      using sf by (simp add: ss0_def stride_fits_sort_key)
    have tot: "totsize = capacity ss0"
    proof (cases "img_bps t")
      case None
      then show ?thesis by (simp add: totsize_def foldl_capacity)
    next
      case (Some b)
      with sf0 show ?thesis by (simp add: totsize_def stride_capacity)
    qed
    then have tot': "totsize = capacity (sectors t)"
      by (simp add: ss0_def capacity_sort_key)
    have len: "0 + capacity ss0 \<le> length tdat"
      using length_pad [of totsize buf] by (simp add: tdat_def tot)
    from set_img_loop_data [OF sf0 len]
    have dat: "concat (map (\<lambda>s. data (dam s)) ss1) = take (capacity ss0) tdat"
      and lens: "map (\<lambda>s. length (data (dam s))) ss1 = map sector_size ss0"
      by (simp_all add: ss1_def)
    have keys1: "map ?r ss1 = map ?r ss0"
      by (simp add: ss1_def set_img_loop_keys)
    have sorted1: "sorted (map ?r ss1)"
      by (simp add: keys1 ss0_def)
    have "distinct (map ?r ss0)"
      using d by (metis ss0_def distinct_map distinct_sort set_sort inj_on_cong)
    then have distinct1: "distinct (map ?r ss1)"
      by (simp add: keys1)
    have resort: "sort_key ?r (sectors t') = ss1"
      by (rule sort_key_of_permutation [OF _ sorted1 distinct1]) (simp add: t'_def)
    have sizes1: "map sector_size ss1 = map sector_size ss0"
      by (simp add: ss1_def set_img_loop_sizes)
    have sf1: "stride_fits (img_bps t) ss1"
    proof (cases "img_bps t")
      case None
      then show ?thesis by (simp add: stride_fits_def)
    next
      case (Some b)
      with sf0 have "\<forall>x \<in> set (map sector_size ss0). x = b"
        by (simp add: stride_fits_def list_all_iff)
      then have "\<forall>x \<in> set (map sector_size ss1). x = b"
        by (simp only: sizes1)
      with Some show ?thesis
        by (simp add: stride_fits_def list_all_iff)
    qed
    have lens1: "map (\<lambda>s. length (data (dam s))) ss1 = map sector_size ss1"
      by (simp only: lens sizes1)
    have get: "get_img_track t' = Inr (concat (map (\<lambda>s. data (dam s)) ss1))"
      unfolding get_img_track_def resort
      using get_img_loop_exact [OF sf1 lens1] by (simp add: t'_def)
    have pad: "take (capacity ss0) tdat = pad_or_truncate totsize buf"
      using take_pad [of totsize buf] by (simp add: tdat_def tot)
    have ids: "map ?r ss1 = sort (map ?r (sectors t))"
      by (simp add: keys1 ss0_def map_sort_key)
    show ?thesis
      using tot' get dat pad lens1 ids by (simp only: Let_def resort simp_thms)
  qed
  show ?thesis
    unfolding res prod.case
  proof (rule conjI)
    show "\<forall>s \<in> set (sectors t'). crc s = 0 \<and> idam_crc (idam s) = 0 \<and> dam_crc (dam s) = 0"
      by (rule crcs)
  next
    show "distinct (map ?r (sectors t)) \<and> stride_fits (img_bps t) (sectors t)
        \<longrightarrow> totsize = capacity (sectors t)
          \<and> get_img_track t' = Inr (pad_or_truncate totsize buf)
          \<and> (let ss = sort_key ?r (sectors t') in
               concat (map (\<lambda>s. data (dam s)) ss) = pad_or_truncate totsize buf
             \<and> map (\<lambda>s. length (data (dam s))) ss = map sector_size ss
             \<and> map ?r ss = sort (map ?r (sectors t)))"
    proof (rule impI)
      assume a: "distinct (map ?r (sectors t)) \<and> stride_fits (img_bps t) (sectors t)"
      show "totsize = capacity (sectors t)
          \<and> get_img_track t' = Inr (pad_or_truncate totsize buf)
          \<and> (let ss = sort_key ?r (sectors t') in
               concat (map (\<lambda>s. data (dam s)) ss) = pad_or_truncate totsize buf
             \<and> map (\<lambda>s. length (data (dam s))) ss = map sector_size ss
             \<and> map ?r ss = sort (map ?r (sectors t)))"
        by (rule rt [OF conjunct1 [OF a] conjunct2 [OF a]])
    qed
  qed
qed

lemma example_sector_simps:
  "start (example_sector st r n) = st"
  "idam_r (idam (example_sector st r n)) = r"
  "idam_n (idam (example_sector st r n)) = n"
  "sector_size (example_sector st r n) = push_bit n 128"
  by (simp_all add: example_sector_def new_Sector_def new_IDAM_def new_DAM_def sector_size_def)

lemma example_sector_data_0: "length (data (dam (example_sector st r 0))) = 128"
  by (simp add: example_sector_def new_Sector_def new_DAM_def length_bad_sector_fill)

lemma replicate_add_128: "replicate 256 x = replicate 128 x @ replicate 128 x"
  by (simp add: replicate_add [symmetric])

theorem img_track_roundtrip_witness:
  "distinct (map (\<lambda>s. idam_r (idam s)) (sectors t_ok))
   \<and> stride_fits (img_bps t_ok) (sectors t_ok)
   \<and> snd (set_img_track t_ok (replicate 128 1 @ replicate 128 2)) = 256
   \<and> get_img_track (fst (set_img_track t_ok (replicate 128 1 @ replicate 128 2)))
       = Inr (replicate 128 1 @ replicate 128 2)
   \<and> map (\<lambda>s. (crc s, idam_crc (idam s), dam_crc (dam s)))
         (sectors (fst (set_img_track t_ok (replicate 128 1 @ replicate 128 2))))
       = [(0, 0, 0), (0, 0, 0)]"
proof -
  let ?buf = "replicate 128 1 @ replicate 128 (2::byte)"
  have d: "distinct (map (\<lambda>s. idam_r (idam s)) (sectors t_ok))"
    by (simp add: t_ok_def example_sector_simps)
  have sf: "stride_fits (img_bps t_ok) (sectors t_ok)"
    by (simp add: t_ok_def IBM_MFM_Formatted_def stride_fits_def)
  have cap: "capacity (sectors t_ok) = 256"
    by (simp add: t_ok_def capacity_def example_sector_simps)
  have pad: "pad_or_truncate 256 ?buf = ?buf"
    by (simp add: pad_or_truncate_def)
  obtain t' k where r: "set_img_track t_ok ?buf = (t', k)"
    by (cases "set_img_track t_ok ?buf")
  from img_track_roundtrip [of t_ok ?buf]
  have rt: "distinct (map (\<lambda>s. idam_r (idam s)) (sectors t_ok)) \<and> stride_fits (img_bps t_ok) (sectors t_ok)
        \<longrightarrow> k = capacity (sectors t_ok) \<and> get_img_track t' = Inr (pad_or_truncate k ?buf)"
    unfolding r prod.case by blast
  from rt d sf have "k = capacity (sectors t_ok)" and "get_img_track t' = Inr (pad_or_truncate k ?buf)"
    by blast+
  with cap pad have "k = 256" and "get_img_track t' = Inr ?buf"
    by simp_all
  moreover have "map (\<lambda>s. (crc s, idam_crc (idam s), dam_crc (dam s)))
         (sectors (fst (set_img_track t_ok ?buf))) = [(0, 0, 0), (0, 0, 0)]"
    by (simp add: set_img_track_def t_ok_def IBM_MFM_Formatted_def Let_def example_sector_simps)
  ultimately show ?thesis
    using d sf unfolding r fst_conv snd_conv by blast
qed

text \<open>
  The claim as stated fails on two tracks whose sectors carry data of their size
  \<^verbatim>\<open>128 << n\<close>. On \<open>t_dup\<close>, with two sectors of ID 1 that are not in start order in
  the list, the two halves of the buffer come back swapped: the sort by ID is stable,
  and \<^verbatim>\<open>set_img_track\<close> leaves the list sorted by start offset. On \<open>t_stride\<close>, with
  a stride of 256 for a sector of 128 bytes, the second half of each stride is not
  stored and comes back as zeros.
\<close>

theorem img_track_roundtrip_counterexample:
  "map (\<lambda>s. length (data (dam s))) (sectors t_dup) = map sector_size (sectors t_dup)
   \<and> img_bps t_dup = None
   \<and> capacity (sectors t_dup) = 256
   \<and> get_img_track (fst (set_img_track t_dup (replicate 128 1 @ replicate 128 2)))
       = Inr (replicate 128 2 @ replicate 128 1)
   \<and> pad_or_truncate 256 (replicate 128 1 @ replicate 128 2) \<noteq> replicate 128 2 @ replicate 128 1
   \<and> map (\<lambda>s. length (data (dam s))) (sectors t_stride) = map sector_size (sectors t_stride)
   \<and> img_bps t_stride = Some 256
   \<and> get_img_track (fst (set_img_track t_stride (replicate 256 1)))
       = Inr (replicate 128 1 @ replicate 128 0)
   \<and> pad_or_truncate 128 (replicate 256 1) \<noteq> replicate 128 1 @ replicate 128 0
   \<and> pad_or_truncate 256 (replicate 256 1) \<noteq> replicate 128 1 @ replicate 128 0"
proof -
  have d1: "map (\<lambda>s. length (data (dam s))) (sectors t_dup) = map sector_size (sectors t_dup)"
    "img_bps t_dup = None" "capacity (sectors t_dup) = 256"
    by (simp_all add: t_dup_def IBM_MFM_Formatted_def example_sector_simps example_sector_data_0
        capacity_def)
  have d2: "get_img_track (fst (set_img_track t_dup (replicate 128 1 @ replicate 128 2)))
       = Inr (replicate 128 2 @ replicate 128 1)"
    by (simp add: set_img_track_def get_img_track_def t_dup_def IBM_MFM_Formatted_def Let_def
        example_sector_simps)
  have d3: "pad_or_truncate 256 (replicate 128 1 @ replicate 128 2)
      \<noteq> replicate 128 2 @ replicate 128 (1::byte)"
    by (simp add: pad_or_truncate_def append_eq_append_conv)
  have s1: "map (\<lambda>s. length (data (dam s))) (sectors t_stride) = map sector_size (sectors t_stride)"
    "img_bps t_stride = Some 256"
    by (simp_all add: t_stride_def IBM_MFM_Formatted_def example_sector_simps example_sector_data_0)
  have s2: "get_img_track (fst (set_img_track t_stride (replicate 256 1)))
       = Inr (replicate 128 1 @ replicate 128 0)"
    by (simp add: set_img_track_def get_img_track_def t_stride_def IBM_MFM_Formatted_def Let_def
        example_sector_simps)
  have s3: "pad_or_truncate 128 (replicate 256 1) \<noteq> replicate 128 1 @ replicate 128 (0::byte)"
    "pad_or_truncate 256 (replicate 256 1) \<noteq> replicate 128 1 @ replicate 128 (0::byte)"
    by (simp_all add: pad_or_truncate_def replicate_add_128 append_eq_append_conv)
  from d1 d2 d3 s1 s2 s3 show ?thesis by (intro conjI)
qed

subsection \<open>decode\_raw never raises on a bit sequence\<close>

lemma itersearch_ge: "offs \<in> set (itersearch pat bits k) \<Longrightarrow> int k \<le> offs"
  by (induction bits arbitrary: k) (fastforce split: if_splits)+

lemma itersearch_nonneg: "offs \<in> set (itersearch pat bits 0) \<Longrightarrow> 0 \<le> offs"
  using itersearch_ge [of offs pat bits 0] by simp

lemma length_tobytes: "length (tobytes bs) = (length bs + 7) div 8"
proof (induction bs rule: tobytes.induct)
  case (1 bs)
  show ?case
  proof (cases "bs = []")
    case True
    then show ?thesis by (subst tobytes.simps) simp
  next
    case False
    then have pos: "length bs > 0" by simp
    from False have eq: "tobytes bs = byte_of_bits (take 8 (bs @ replicate 7 False)) # tobytes (drop 8 bs)"
      by (subst tobytes.simps) (simp only: if_False)
    have IH: "length (tobytes (drop 8 bs)) = (length (drop 8 bs) + 7) div 8"
      by (rule 1 [OF False])
    have "length (tobytes bs) = Suc (length (tobytes (drop 8 bs)))"
      by (subst eq) (rule length_Cons)
    also have "\<dots> = Suc ((length bs - 8 + 7) div 8)"
      by (simp only: IH length_drop)
    also have "\<dots> = (length bs + 7) div 8"
    proof (cases "length bs < 8")
      case True
      with pos have "(length bs + 7) div 8 = 1"
        by (intro div_nat_eqI) (simp_all add: Suc_le_eq)
      with True show ?thesis by simp
    next
      case False
      then obtain k where "length bs = k + 8"
        by (metis le_add_diff_inverse2 not_less)
      then show ?thesis by simp
    qed
    finally show ?thesis .
  qed
qed

lemma length_slice:
  "0 \<le> s \<Longrightarrow> s \<le> e \<Longrightarrow> e \<le> int (length xs) \<Longrightarrow> length (py_slice xs s e) = nat (e - s)"
  by (simp add: py_slice_def)

lemma length_decode_slice:
  assumes "0 \<le> s" and "e \<le> int (length bits)" and "e = s + int k * 16"
  shows "length (decode (tobytes (py_slice bits s e))) = k"
proof -
  have "length (py_slice bits s e) = k * 16"
    using assms by (simp add: length_slice)
  then show ?thesis
    by (simp add: length_decode length_tobytes)
qed

lemma read_mark_ok:
  assumes "0 \<le> offs" and "\<not> int (length bits) < offs + 4 * 16"
  shows "\<exists>m. read_mark bits offs = Inr m"
proof -
  have "length (decode (tobytes (py_slice bits (offs + 3 * 16) (offs + 4 * 16)))) = 1"
    using assms by (intro length_decode_slice) simp_all
  then obtain m where "decode (tobytes (py_slice bits (offs + 3 * 16) (offs + 4 * 16))) = [m]"
    by (cases "decode (tobytes (py_slice bits (offs + 3 * 16) (offs + 4 * 16)))") auto
  then show ?thesis by (simp add: read_mark_def)
qed

lemma iam_step_ok: "0 \<le> offs \<Longrightarrow> \<exists>st'. iam_step bits offs st = Inr st'"
proof (cases "int (length bits) < offs + 4 * 16")
  case True
  then show ?thesis by (cases st) (simp add: iam_step_def)
next
  case False
  assume "0 \<le> offs"
  from read_mark_ok [OF this False] obtain m where "read_mark bits offs = Inr m" by blast
  with False show ?thesis by (cases st) (auto simp: iam_step_def)
qed

lemma idam_step_ok: "0 \<le> offs \<Longrightarrow> \<exists>st'. idam_step bits offs st = Inr st'"
proof (cases "int (length bits) < offs + 10 * 16")
  case True
  then show ?thesis by (cases st) (simp add: idam_step_def)
next
  case False
  assume o: "0 \<le> offs"
  have "length (decode (tobytes (py_slice bits offs (offs + 10 * 16)))) = 10"
    using o False by (intro length_decode_slice) simp_all
  then have "\<exists>x. unpack_4x4B2x (decode (tobytes (py_slice bits offs (offs + 10 * 16)))) = Inr x"
    by (simp add: unpack_4x4B2x_def)
  with False show ?thesis
    by (cases st) (auto simp: idam_step_def Let_def split: prod.splits)
qed

lemma sync_step_ok: "0 \<le> offs \<Longrightarrow> \<exists>st'. sync_step bits offs st = Inr st'"
proof (cases "int (length bits) < offs + 4 * 16")
  case True
  then show ?thesis by (simp add: sync_step_def)
next
  case False
  assume o: "0 \<le> offs"
  from read_mark_ok [OF o False] obtain m where "read_mark bits offs = Inr m" by blast
  with False idam_step_ok [OF o, of bits st] show ?thesis by (auto simp: sync_step_def)
qed

lemma iam_loop_ok:
  "\<forall>offs \<in> set offsets. 0 \<le> offs \<Longrightarrow> \<exists>st'. iam_loop bits offsets st = Inr st'"
proof (induction offsets arbitrary: st)
  case Nil
  show ?case by simp
next
  case (Cons offs rest)
  then have "0 \<le> offs" by simp
  from iam_step_ok [OF this, of bits st] obtain st1 where "iam_step bits offs st = Inr st1" by blast
  moreover from Cons have "\<exists>st'. iam_loop bits rest st1 = Inr st'" by simp
  ultimately show ?case by simp
qed

lemma sync_loop_ok:
  "\<forall>offs \<in> set offsets. 0 \<le> offs \<Longrightarrow> \<exists>st'. sync_loop bits offsets st = Inr st'"
proof (induction offsets arbitrary: st)
  case Nil
  show ?case by simp
next
  case (Cons offs rest)
  then have "0 \<le> offs" by simp
  from sync_step_ok [OF this, of bits st] obtain st1 where "sync_step bits offs st = Inr st1" by blast
  moreover from Cons have "\<exists>st'. sync_loop bits rest st1 = Inr st'" by simp
  ultimately show ?case by simp
qed

lemma scan_ok: "\<exists>areas hi. scan bits hi0 = Inr (areas, hi)"
proof -
  obtain st1 where 1: "iam_loop bits (itersearch iam_sync bits 0) ([], hi0) = Inr st1"
    using iam_loop_ok [of "itersearch iam_sync bits 0" bits "([], hi0)"] itersearch_nonneg by blast
  obtain areas hi where st1: "st1 = (areas, hi)" by (cases st1)
  obtain st2 where 2: "sync_loop bits (itersearch sync bits 0) (areas, None) = Inr st2"
    using sync_loop_ok [of "itersearch sync bits 0" bits "(areas, None)"] itersearch_nonneg by blast
  obtain areas2 pend where st2: "st2 = (areas2, pend)" by (cases st2)
  show ?thesis
    by (simp add: scan_def 1 st1 2 st2)
qed

lemma decode_raw_ok:
  assumes "revolutions \<noteq> []"
  shows "\<exists>t'. decode_raw t bits revolutions = Inr t'"
proof -
  obtain areas hi where "scan bits (has_iam t) = Inr (areas, hi)"
    using scan_ok by blast
  moreover obtain n index where "revolutions = n # index"
    using assms by (cases revolutions) auto
  ultimately show ?thesis
    by (simp add: decode_raw_def track_areas_def Let_def)
qed

lemma decode_raw_formatted_ok:
  assumes "revolutions \<noteq> []"
  shows "\<exists>t'. decode_raw_formatted t bits revolutions = Inr t'"
proof -
  obtain t1 where "decode_raw (t\<lparr>iams := raw_iams t, sectors := raw_sectors t\<rparr>) bits revolutions = Inr t1"
    using decode_raw_ok [OF assms] by blast
  then show ?thesis
    by (simp add: decode_raw_formatted_def)
qed

subsection \<open>The merge step\<close>

lemma merge_sector_not_found:
  "\<forall>s \<in> set list. \<not> \<bar>start s - start a\<bar> < 1000 \<Longrightarrow> merge_sector a list = list @ [a]"
  by (induction list) simp_all

lemma merge_sector_found:
  "i < length list \<Longrightarrow> \<bar>start (list ! i) - start a\<bar> < 1000
     \<Longrightarrow> \<forall>j < i. \<not> \<bar>start (list ! j) - start a\<bar> < 1000
     \<Longrightarrow> merge_sector a list = (if crc (list ! i) \<noteq> 0 \<and> crc a = 0 then list[i := a] else list)"
proof (induction list arbitrary: i)
  case Nil
  then show ?case by simp
next
  case (Cons s list)
  show ?case
  proof (cases i)
    case 0
    with Cons.prems show ?thesis by simp
  next
    case (Suc k)
    with Cons.prems(3) have far: "\<not> \<bar>start s - start a\<bar> < 1000" by auto
    from Suc Cons.prems have k: "k < length list" "\<bar>start (list ! k) - start a\<bar> < 1000"
      by simp_all
    have "\<forall>j < k. \<not> \<bar>start (list ! j) - start a\<bar> < 1000"
    proof (intro allI impI)
      fix j assume "j < k"
      then have "Suc j < i" using Suc by simp
      with Cons.prems(3) have "\<not> \<bar>start ((s # list) ! Suc j) - start a\<bar> < 1000" by blast
      then show "\<not> \<bar>start (list ! j) - start a\<bar> < 1000" by simp
    qed
    from Cons.IH [OF k this] far Suc show ?thesis by simp
  qed
qed

lemma merge_iam_not_found:
  "\<forall>s \<in> set list. \<not> \<bar>iam_start s - iam_start a\<bar> < 1000 \<Longrightarrow> merge_iam a list = list @ [a]"
  by (induction list) simp_all

lemma merge_iam_found:
  "\<exists>s \<in> set list. \<bar>iam_start s - iam_start a\<bar> < 1000 \<Longrightarrow> merge_iam a list = list"
  by (induction list) auto

lemma merge_areas_Nil [simp]: "merge_areas [] t = t"
  by (simp add: merge_areas_def)

lemma merge_areas_Cons [simp]: "merge_areas (a # areas) t = merge_areas areas (merge_area a t)"
  by (simp add: merge_areas_def)

lemma two_reads_one_sector:
  assumes "sectors t = []" and "\<bar>start a1 - start a2\<bar> < 1000"
  shows "sectors (merge_areas [Area_Sector a1, Area_Sector a2] t)
           = (if crc a1 \<noteq> 0 \<and> crc a2 = 0 then [a2] else [a1])"
  using assms by simp

lemma delta_0:
  "delta_IAM 0 a = a" "delta_IDAM 0 i = i" "delta_DAM 0 d = d" "delta_Sector 0 s = s"
  by (simp_all add: delta_IAM_def delta_IDAM_def delta_DAM_def delta_Sector_def)

lemma track_areas_single_revolution:
  "area_start a < n \<Longrightarrow> track_areas [a] [n] = Inr [area_delta 0 a]"
  by (simp add: track_areas_def)

lemma delta_Sector_inverse: "delta_Sector n (delta_Sector (- n) s) = s"
  by (simp add: delta_Sector_def delta_IDAM_def delta_DAM_def)

lemma start_delta_Sector: "start (delta_Sector p s) = start s - p"
  by (simp add: delta_Sector_def)

lemma track_areas_two_revolutions:
  assumes "0 \<le> start a1" and "start a1 < n" and "0 \<le> start a2"
  shows "track_areas [Area_Sector a1, Area_Sector (delta_Sector (- n) a2)] (n # index)
           = Inr (if start a1 \<le> start a2 then [Area_Sector a1, Area_Sector a2]
                  else [Area_Sector a2, Area_Sector a1])"
proof -
  let ?b = "delta_Sector (- n) a2"
  have sb: "start ?b = start a2 + n"
    by (simp add: start_delta_Sector)
  have "sort_key area_start [Area_Sector a1, Area_Sector ?b] = [Area_Sector a1, Area_Sector ?b]"
    using assms by (simp add: sb)
  moreover have "to_track_offsets [Area_Sector a1, Area_Sector ?b] 0 (Some n) index
      = [Area_Sector a1, Area_Sector a2]"
    using assms by (cases index) (simp_all add: sb delta_0 delta_Sector_inverse)
  ultimately show ?thesis
    by (simp add: track_areas_def)
qed

lemma two_revolutions_one_sector:
  assumes "sectors t = []" and "0 \<le> start a1" and "start a1 < n" and "0 \<le> start a2"
    and "\<bar>start a1 - start a2\<bar> < 1000"
  shows "\<exists>areas'. track_areas [Area_Sector a1, Area_Sector (delta_Sector (- n) a2)] (n # index)
                     = Inr areas'
           \<and> length (sectors (merge_areas areas' t)) = 1
           \<and> (crc a1 \<noteq> 0 \<and> crc a2 = 0 \<longrightarrow> sectors (merge_areas areas' t) = [a2])"
proof -
  from assms(5) have c: "\<bar>start a2 - start a1\<bar> < 1000"
    by (simp only: abs_minus_commute [of "start a2" "start a1"])
  note ta = track_areas_two_revolutions [OF assms(2,3,4), of index]
  show ?thesis
  proof (cases "start a1 \<le> start a2")
    case True
    with ta have "track_areas [Area_Sector a1, Area_Sector (delta_Sector (- n) a2)] (n # index)
        = Inr [Area_Sector a1, Area_Sector a2]"
      by simp
    moreover note two_reads_one_sector [OF assms(1,5)]
    ultimately show ?thesis by simp
  next
    case False
    with ta have "track_areas [Area_Sector a1, Area_Sector (delta_Sector (- n) a2)] (n # index)
        = Inr [Area_Sector a2, Area_Sector a1]"
      by simp
    moreover note two_reads_one_sector [OF assms(1) c]
    ultimately show ?thesis by simp
  qed
qed

lemma example_sector_start_crc:
  "start (example_sector st r n) = st" "crc (example_sector st r n) = 0xffff"
  "start (example_good_sector st r n) = st" "crc (example_good_sector st r n) = 0"
  by (simp_all add: example_sector_def example_good_sector_def new_Sector_def new_IDAM_def
      new_DAM_def)

text \<open>
  Claim C3. In the merge step a sector \<open>a\<close> is compared with the entries of the list
  in order; the first entry whose start differs from that of \<open>a\<close> by less than 1000
  bit cells decides: \<open>a\<close> replaces it when the entry has a nonzero CRC and \<open>a\<close> has
  CRC zero, and is dropped otherwise. When no entry is that near, \<open>a\<close> is appended.
  An index mark is dropped when an entry is that near and appended otherwise.
  Consequently two reads of a sector whose starts are less than 1000 bit cells apart,
  merged into an empty list, give exactly one sector, and when the first has a bad CRC
  and the second a good one, the good one, in whichever order the sort by start offset
  puts them. The last part says the same for two revolutions: the second read lies one
  revolution of \<open>n\<close> bit cells after its place \<open>a2\<close> on the track.
\<close>

theorem merge_step_dedup:
  "((\<forall>s \<in> set list. \<not> \<bar>start s - start a\<bar> < 1000) \<longrightarrow> merge_sector a list = list @ [a])
   \<and> (\<forall>i < length list.
         \<bar>start (list ! i) - start a\<bar> < 1000 \<and> (\<forall>j < i. \<not> \<bar>start (list ! j) - start a\<bar> < 1000)
         \<longrightarrow> merge_sector a list
               = (if crc (list ! i) \<noteq> 0 \<and> crc a = 0 then list[i := a] else list))
   \<and> ((\<forall>s \<in> set ilist. \<not> \<bar>iam_start s - iam_start b\<bar> < 1000) \<longrightarrow> merge_iam b ilist = ilist @ [b])
   \<and> ((\<exists>s \<in> set ilist. \<bar>iam_start s - iam_start b\<bar> < 1000) \<longrightarrow> merge_iam b ilist = ilist)
   \<and> (sectors t = [] \<and> \<bar>start a1 - start a2\<bar> < 1000 \<longrightarrow>
         length (sectors (merge_areas [Area_Sector a1, Area_Sector a2] t)) = 1
       \<and> (crc a1 \<noteq> 0 \<and> crc a2 = 0 \<longrightarrow>
             sectors (merge_areas [Area_Sector a1, Area_Sector a2] t) = [a2]
           \<and> sectors (merge_areas [Area_Sector a2, Area_Sector a1] t) = [a2]
           \<and> crc (hd (sectors (merge_areas [Area_Sector a1, Area_Sector a2] t))) = 0))
   \<and> (sectors t = [] \<and> 0 \<le> start a1 \<and> start a1 < n \<and> 0 \<le> start a2
        \<and> \<bar>start a1 - start a2\<bar> < 1000 \<longrightarrow>
         (\<exists>areas'. track_areas [Area_Sector a1, Area_Sector (delta_Sector (- n) a2)] (n # index)
                     = Inr areas'
           \<and> length (sectors (merge_areas areas' t)) = 1
           \<and> (crc a1 \<noteq> 0 \<and> crc a2 = 0 \<longrightarrow> sectors (merge_areas areas' t) = [a2])))"
proof (intro conjI impI allI)
  assume "\<forall>s \<in> set list. \<not> \<bar>start s - start a\<bar> < 1000"
  then show "merge_sector a list = list @ [a]" by (rule merge_sector_not_found)
next
  fix i
  assume "i < length list"
    and "\<bar>start (list ! i) - start a\<bar> < 1000 \<and> (\<forall>j < i. \<not> \<bar>start (list ! j) - start a\<bar> < 1000)"
  then show "merge_sector a list = (if crc (list ! i) \<noteq> 0 \<and> crc a = 0 then list[i := a] else list)"
    using merge_sector_found [of i list a] by blast
next
  assume "\<forall>s \<in> set ilist. \<not> \<bar>iam_start s - iam_start b\<bar> < 1000"
  then show "merge_iam b ilist = ilist @ [b]" by (rule merge_iam_not_found)
next
  assume "\<exists>s \<in> set ilist. \<bar>iam_start s - iam_start b\<bar> < 1000"
  then show "merge_iam b ilist = ilist" by (rule merge_iam_found)
next
  assume "sectors t = [] \<and> \<bar>start a1 - start a2\<bar> < 1000"
  then show "length (sectors (merge_areas [Area_Sector a1, Area_Sector a2] t)) = 1"
    by (simp add: two_reads_one_sector)
next
  assume h: "sectors t = [] \<and> \<bar>start a1 - start a2\<bar> < 1000" and c: "crc a1 \<noteq> 0 \<and> crc a2 = 0"
  from h c show "sectors (merge_areas [Area_Sector a1, Area_Sector a2] t) = [a2]"
    by (simp add: two_reads_one_sector)
  from h have "\<bar>start a2 - start a1\<bar> < 1000"
    by (simp only: abs_minus_commute [of "start a2" "start a1"])
  with h c show "sectors (merge_areas [Area_Sector a2, Area_Sector a1] t) = [a2]"
    by (simp add: two_reads_one_sector)
  from h c show "crc (hd (sectors (merge_areas [Area_Sector a1, Area_Sector a2] t))) = 0"
    by (simp add: two_reads_one_sector)
next
  assume "sectors t = [] \<and> 0 \<le> start a1 \<and> start a1 < n \<and> 0 \<le> start a2
        \<and> \<bar>start a1 - start a2\<bar> < 1000"
  then show "\<exists>areas'. track_areas [Area_Sector a1, Area_Sector (delta_Sector (- n) a2)] (n # index)
                     = Inr areas'
           \<and> length (sectors (merge_areas areas' t)) = 1
           \<and> (crc a1 \<noteq> 0 \<and> crc a2 = 0 \<longrightarrow> sectors (merge_areas areas' t) = [a2])"
    using two_revolutions_one_sector [of t a1 n a2 index] by blast
qed

theorem merge_step_dedup_witness:
  "\<bar>start (example_sector 3000 1 0) - start (example_good_sector 3005 1 0)\<bar> < 1000
   \<and> crc (example_sector 3000 1 0) \<noteq> 0 \<and> crc (example_good_sector 3005 1 0) = 0
   \<and> merge_sector (example_good_sector 3005 1 0) [example_sector 3000 1 0]
       = [example_good_sector 3005 1 0]
   \<and> merge_sector (example_sector 3005 1 0) [example_sector 3000 1 0] = [example_sector 3000 1 0]
   \<and> merge_sector (example_sector 9000 2 0) [example_sector 3000 1 0]
       = [example_sector 3000 1 0, example_sector 9000 2 0]
   \<and> merge_iam (new_IAM 100 164) [new_IAM 90 154] = [new_IAM 90 154]
   \<and> merge_iam (new_IAM 5000 5064) [new_IAM 90 154] = [new_IAM 90 154, new_IAM 5000 5064]
   \<and> sectors (merge_areas [Area_Sector (example_sector 3000 1 0),
                              Area_Sector (example_good_sector 3005 1 0)] (IBM_MFM_Formatted 0 0))
       = [example_good_sector 3005 1 0]
   \<and> track_areas [Area_Sector (example_sector 3000 1 0),
                     Area_Sector (delta_Sector (- 100000) (example_good_sector 3005 1 0))]
         [100000, 100000]
       = Inr [Area_Sector (example_sector 3000 1 0), Area_Sector (example_good_sector 3005 1 0)]"
proof -
  let ?bad = "example_sector 3000 1 0" and ?good = "example_good_sector 3005 1 0"
  let ?dup = "example_sector 3005 1 0" and ?far = "example_sector 9000 2 0"
  let ?t = "IBM_MFM_Formatted 0 0"
  note s = example_sector_start_crc
  have near: "\<bar>start ?bad - start ?good\<bar> < 1000" and crcs: "crc ?bad \<noteq> 0" "crc ?good = 0"
    by (simp_all add: s)
  have e: "sectors ?t = []"
    by (simp add: IBM_MFM_Formatted_def)
  have r1: "merge_sector ?good [?bad] = [?good]"
    using merge_step_dedup [of "[?bad]" ?good "[]" "new_IAM 0 64" ?t ?bad ?good 100000 "[100000]"] near crcs
    by (simp add: s)
  have r2: "merge_sector ?dup [?bad] = [?bad]"
    using merge_step_dedup [of "[?bad]" ?dup "[]" "new_IAM 0 64" ?t ?bad ?good 100000 "[100000]"]
    by (simp add: s)
  have r3: "merge_sector ?far [?bad] = [?bad, ?far]"
    using merge_step_dedup [of "[?bad]" ?far "[]" "new_IAM 0 64" ?t ?bad ?good 100000 "[100000]"]
    by (simp add: s)
  have r4: "merge_iam (new_IAM 100 164) [new_IAM 90 154] = [new_IAM 90 154]"
    using merge_step_dedup [of "[]" ?good "[new_IAM 90 154]" "new_IAM 100 164" ?t ?bad ?good 100000 "[100000]"]
    by (simp add: new_IAM_def)
  have r5: "merge_iam (new_IAM 5000 5064) [new_IAM 90 154] = [new_IAM 90 154, new_IAM 5000 5064]"
    using merge_step_dedup [of "[]" ?good "[new_IAM 90 154]" "new_IAM 5000 5064" ?t ?bad ?good 100000 "[100000]"]
    by (simp add: new_IAM_def)
  have r6: "sectors (merge_areas [Area_Sector ?bad, Area_Sector ?good] ?t) = [?good]"
    using merge_step_dedup [of "[]" ?good "[]" "new_IAM 0 64" ?t ?bad ?good 100000 "[100000]"] near crcs e
    by blast
  have r7: "track_areas [Area_Sector ?bad, Area_Sector (delta_Sector (- 100000) ?good)]
         [100000, 100000] = Inr [Area_Sector ?bad, Area_Sector ?good]"
  proof -
    have pos: "0 \<le> start ?bad" "start ?bad < 100000" "0 \<le> start ?good"
      by (simp_all add: s)
    from merge_step_dedup [of "[]" ?good "[]" "new_IAM 0 64" ?t ?bad ?good 100000 "[100000]"]
      near e pos
    obtain areas' where "track_areas [Area_Sector ?bad, Area_Sector (delta_Sector (- 100000) ?good)]
         [100000, 100000] = Inr areas'"
      by blast
    then show ?thesis
      by (simp add: track_areas_two_revolutions [OF pos] s)
  qed
  from near crcs r1 r2 r3 r4 r5 r6 r7 show ?thesis by (intro conjI)
qed

subsection \<open>What decode\_raw adds to the lists of a track\<close>

lemma set_merge_sector: "set (merge_sector a list) \<subseteq> insert a (set list)"
  by (induction list) auto

lemma set_merge_iam: "set (merge_iam a list) \<subseteq> insert a (set list)"
  by (induction list) auto

lemma merge_areas_sets:
  "set (iams (merge_areas areas t)) \<subseteq> set (iams t) \<union> {x. Area_IAM x \<in> set areas}
   \<and> set (sectors (merge_areas areas t)) \<subseteq> set (sectors t) \<union> {x. Area_Sector x \<in> set areas}"
proof (induction areas arbitrary: t)
  case Nil
  show ?case by simp
next
  case (Cons a areas)
  show ?case
  proof (cases a)
    case (Area_IAM x)
    with Cons [of "merge_area a t"] set_merge_iam [of x "iams t"] show ?thesis by auto
  next
    case (Area_IDAM x)
    with Cons [of t] show ?thesis by auto
  next
    case (Area_DAM x)
    with Cons [of t] show ?thesis by auto
  next
    case (Area_Sector x)
    with Cons [of "merge_area a t"] set_merge_sector [of x "sectors t"] show ?thesis by auto
  qed
qed

lemma merge_areas_filter:
  "merge_areas (filter is_iam_or_sector areas) t = merge_areas areas t"
proof (induction areas arbitrary: t)
  case Nil
  show ?case by simp
next
  case (Cons a areas)
  then show ?case by (cases a) (simp_all add: is_iam_or_sector_def)
qed

lemma merge_areas_other_fields:
  "cyl (merge_areas areas t) = cyl t \<and> head (merge_areas areas t) = head t
   \<and> has_iam (merge_areas areas t) = has_iam t
   \<and> raw_iams (merge_areas areas t) = raw_iams t \<and> raw_sectors (merge_areas areas t) = raw_sectors t
   \<and> img_bps (merge_areas areas t) = img_bps t \<and> t_nsec (merge_areas areas t) = t_nsec t
   \<and> time_per_rev (merge_areas areas t) = time_per_rev t \<and> clock (merge_areas areas t) = clock t"
proof (induction areas arbitrary: t)
  case Nil
  show ?case by simp
next
  case (Cons a areas)
  from Cons [of "merge_area a t"] show ?case by (cases a) simp_all
qed

lemma length_match_raw: "length (match_raw raw ss) = length ss"
  by (induction raw arbitrary: ss) simp_all

text \<open>
  Claim C9. The merge step leaves the track as it is for an ID field and for a data
  field. After \<^verbatim>\<open>decode_raw\<close> the track is the result of merging only the index marks
  and sectors among the areas of the scan; every entry of \<^verbatim>\<open>iams\<close> and \<^verbatim>\<open>sectors\<close> is an
  entry from before or one of these areas. \<^verbatim>\<open>IBM_MFM_Formatted.decode_raw\<close> adds to
  \<^verbatim>\<open>raw_iams\<close> and \<^verbatim>\<open>raw_sectors\<close> in this way, keeps \<^verbatim>\<open>iams\<close> and keeps the number of
  \<^verbatim>\<open>sectors\<close>. The witness shows both kinds of discarded area being produced by the
  scan: an ID field closed by the end of the bit sequence, and a data mark with no
  pending ID field.
\<close>

theorem decode_raw_adds_only_iam_and_sector:
  "merge_area (Area_IDAM i) t = t \<and> merge_area (Area_DAM d) t = t
   \<and> (decode_raw t bits revolutions = Inr t' \<longrightarrow>
        (\<exists>areas hi areas'.
            scan bits (has_iam t) = Inr (areas, hi)
          \<and> track_areas areas revolutions = Inr areas'
          \<and> t' = merge_areas (filter is_iam_or_sector areas') (t\<lparr>has_iam := hi\<rparr>)
          \<and> set (iams t') \<subseteq> set (iams t) \<union> {x. Area_IAM x \<in> set areas'}
          \<and> set (sectors t') \<subseteq> set (sectors t) \<union> {x. Area_Sector x \<in> set areas'}))
   \<and> (decode_raw_formatted t bits revolutions = Inr t' \<longrightarrow>
          iams t' = iams t \<and> length (sectors t') = length (sectors t)
        \<and> (\<exists>areas hi areas'.
            scan bits (has_iam t) = Inr (areas, hi)
          \<and> track_areas areas revolutions = Inr areas'
          \<and> set (raw_iams t') \<subseteq> set (raw_iams t) \<union> {x. Area_IAM x \<in> set areas'}
          \<and> set (raw_sectors t') \<subseteq> set (raw_sectors t) \<union> {x. Area_Sector x \<in> set areas'}))"
proof (intro conjI impI)
  show "merge_area (Area_IDAM i) t = t" by simp
  show "merge_area (Area_DAM d) t = t" by simp
next
  assume dr: "decode_raw t bits revolutions = Inr t'"
  obtain areas hi where sc: "scan bits (has_iam t) = Inr (areas, hi)"
    using scan_ok by blast
  with dr obtain areas' where ta: "track_areas areas revolutions = Inr areas'"
    and t': "t' = merge_areas areas' (t\<lparr>has_iam := hi\<rparr>)"
    by (auto simp: decode_raw_def split: sum.splits)
  from merge_areas_sets [of areas' "t\<lparr>has_iam := hi\<rparr>"] sc ta t'
  show "\<exists>areas hi areas'.
            scan bits (has_iam t) = Inr (areas, hi)
          \<and> track_areas areas revolutions = Inr areas'
          \<and> t' = merge_areas (filter is_iam_or_sector areas') (t\<lparr>has_iam := hi\<rparr>)
          \<and> set (iams t') \<subseteq> set (iams t) \<union> {x. Area_IAM x \<in> set areas'}
          \<and> set (sectors t') \<subseteq> set (sectors t) \<union> {x. Area_Sector x \<in> set areas'}"
    by (simp add: merge_areas_filter)
next
  assume df: "decode_raw_formatted t bits revolutions = Inr t'"
  let ?t0 = "t\<lparr>iams := raw_iams t, sectors := raw_sectors t\<rparr>"
  from df obtain t1 where dr: "decode_raw ?t0 bits revolutions = Inr t1"
    and t': "t' = t1\<lparr>raw_iams := iams t1, raw_sectors := sectors t1, iams := iams t,
                  sectors := match_raw (sectors t1) (sectors t)\<rparr>"
    by (auto simp: decode_raw_formatted_def split: sum.splits)
  from t' show "iams t' = iams t" by simp
  from t' show "length (sectors t') = length (sectors t)" by (simp add: length_match_raw)
  obtain areas hi where sc: "scan bits (has_iam t) = Inr (areas, hi)"
    using scan_ok by blast
  with dr obtain areas' where ta: "track_areas areas revolutions = Inr areas'"
    and t1: "t1 = merge_areas areas' (?t0\<lparr>has_iam := hi\<rparr>)"
    by (auto simp: decode_raw_def split: sum.splits)
  from merge_areas_sets [of areas' "?t0\<lparr>has_iam := hi\<rparr>"] sc ta t1 t'
  show "\<exists>areas hi areas'.
            scan bits (has_iam t) = Inr (areas, hi)
          \<and> track_areas areas revolutions = Inr areas'
          \<and> set (raw_iams t') \<subseteq> set (raw_iams t) \<union> {x. Area_IAM x \<in> set areas'}
          \<and> set (raw_sectors t') \<subseteq> set (raw_sectors t) \<union> {x. Area_Sector x \<in> set areas'}"
    by simp
qed

subsection \<open>Evaluating the scan on the example bit sequences\<close>

lemma bits_of_byte_unat:
  "bits_of_byte b = map (\<lambda>i. odd (unat b div 2 ^ i)) [7, 6, 5, 4, 3, 2, 1, 0]"
  by (simp add: bits_of_byte_def bit_iff_odd [symmetric] bit_unsigned_iff)

lemma bits_of_byte_simps:
  "bits_of_byte 0x44 = [False, True, False, False, False, True, False, False]"
  "bits_of_byte 0x89 = [True, False, False, False, True, False, False, True]"
  "bits_of_byte 0x55 = [False, True, False, True, False, True, False, True]"
  "bits_of_byte 0x45 = [False, True, False, False, False, True, False, True]"
  by (simp_all add: bits_of_byte_unat)

lemma decode_pair_eval: "decode_pair x y = word_of_nat (decode_entry ((push_bit 8 (unat x) OR unat y) AND 0x5555))"
  unfolding decode_pair_def by (rule decode_list_nth) (rule and_nat_le2)

lemma bits_of_byte_more:
  "bits_of_byte 0x54 = [False, True, False, True, False, True, False, False]"
  "bits_of_byte 0x00 = [False, False, False, False, False, False, False, False]"
  "bits_of_byte 0x01 = [False, False, False, False, False, False, False, True]"
  "bits_of_byte 0x52 = [False, True, False, True, False, False, True, False]"
  "bits_of_byte 0x24 = [False, False, True, False, False, True, False, False]"
  by (simp_all add: bits_of_byte_unat)

lemmas bits_lit = frombytes_def bits_of_byte_simps bits_of_byte_more

lemma sync_lit: "sync =
  [False, True, False, False, False, True, False, False, True, False, False, False, True, False, False, True,
   False, True, False, False, False, True, False, False, True, False, False, False, True, False, False, True,
   False, True, False, False, False, True, False, False, True, False, False, False, True, False, False, True]"
  by (simp add: sync_def sync_bytes_def bits_lit)

lemma iam_sync_lit: "iam_sync =
  [False, True, False, True, False, False, True, False, False, False, True, False, False, True, False, False,
   False, True, False, True, False, False, True, False, False, False, True, False, False, True, False, False,
   False, True, False, True, False, False, True, False, False, False, True, False, False, True, False, False]"
  by (simp add: iam_sync_def iam_sync_bytes_def bits_lit)

text \<open>Skipping rules for a pattern that begins with a zero bit followed by a one bit.\<close>

lemma itersearch_skip_one:
  "itersearch (False # pat) (True # xs) k = itersearch (False # pat) xs (k + 1)"
  by simp

lemma itersearch_skip_zero_zero:
  "itersearch (p # True # pat) (False # False # xs) k = itersearch (p # True # pat) (False # xs) (k + 1)"
  by simp

lemma itersearch_last_zero:
  "itersearch (p # True # pat) [False] k = []"
  by simp

lemma itersearch_zeros:
  "xs = [] \<or> hd xs = False \<Longrightarrow>
     itersearch (p # True # pat) (replicate n False @ xs) k = itersearch (p # True # pat) xs (k + n)"
proof (induction n arbitrary: k)
  case 0
  show ?case by simp
next
  case (Suc n)
  have "take (length (p # True # pat)) (False # replicate n False @ xs) \<noteq> p # True # pat"
  proof (cases n)
    case 0
    with Suc.prems show ?thesis by (cases xs) auto
  next
    case (Suc m)
    then show ?thesis by simp
  qed
  then have "itersearch (p # True # pat) (replicate (Suc n) False @ xs) k
      = itersearch (p # True # pat) (replicate n False @ xs) (k + 1)"
    by simp
  with Suc.IH [OF Suc.prems, of "k + 1"] show ?case by simp
qed

lemma itersearch_zero_then_zeros:
  "0 < n \<Longrightarrow> itersearch (p # True # pat) (False # replicate n False @ xs) k
     = itersearch (p # True # pat) (replicate n False @ xs) (k + 1)"
  by (cases n) simp_all

lemma itersearch_check:
  "itersearch pat (False # True # xs) k =
     (if take (length pat) (False # True # xs) = pat
      then int k # itersearch pat (True # xs) (k + 1)
      else itersearch pat (True # xs) (k + 1))"
  by simp

lemma itersearch_only_zeros: "itersearch (p # True # pat) (replicate n False) k = []"
  using itersearch_zeros [of "[]" p pat n k] by simp

lemmas itersearch_eval = itersearch.simps(1) itersearch_skip_one itersearch_skip_zero_zero
  itersearch_last_zero itersearch_zeros itersearch_zero_then_zeros itersearch_check
  itersearch_only_zeros

lemma idam_field_bits_lit: "idam_field_bits =
  [False, True, False, False, False, True, False, False, True, False, False, False, True, False, False, True,
   False, True, False, False, False, True, False, False, True, False, False, False, True, False, False, True,
   False, True, False, False, False, True, False, False, True, False, False, False, True, False, False, True,
   False, True, False, True, False, True, False, True, False, True, False, True, False, True, False, False,
   False, False, False, False, False, False, False, False, False, False, False, False, False, False, False, False,
   False, False, False, False, False, False, False, False, False, False, False, False, False, False, False, False,
   False, False, False, False, False, False, False, False, False, False, False, False, False, False, False, True,
   False, False, False, False, False, False, False, False, False, False, False, False, False, False, False, False,
   False, False, False, False, False, False, False, False, False, False, False, False, False, False, False, False,
   False, False, False, False, False, False, False, False, False, False, False, False, False, False, False, False]"
  by (simp add: idam_field_bits_def bits_lit)

lemma dam_mark_bits_lit: "dam_mark_bits =
  [False, True, False, False, False, True, False, False, True, False, False, False, True, False, False, True,
   False, True, False, False, False, True, False, False, True, False, False, False, True, False, False, True,
   False, True, False, False, False, True, False, False, True, False, False, False, True, False, False, True,
   False, True, False, True, False, True, False, True, False, True, False, False, False, True, False, True]"
  by (simp add: dam_mark_bits_def bits_lit)

lemma its_sync_far: "itersearch sync far_bits 0 = [0, 2000]"
  by (simp add: far_bits_def idam_field_bits_lit dam_mark_bits_lit sync_lit itersearch_eval
      del: itersearch.simps(2))

lemma its_iam_far: "itersearch iam_sync far_bits 0 = []"
  by (simp add: far_bits_def idam_field_bits_lit dam_mark_bits_lit iam_sync_lit itersearch_eval
      del: itersearch.simps(2))

lemmas tobytes_eval = tobytes.simps byte_of_bits_def
lemmas decode_eval = decode_pair_eval decode_entry_def decode_step_def upt_rec

lemma tobytes_idam_field: "tobytes idam_field_bits =
   [0x44, 0x89, 0x44, 0x89, 0x44, 0x89, 0x55, 0x54,
    0x00, 0x00, 0x00, 0x00, 0x00, 0x01, 0x00, 0x00, 0x00, 0x00, 0x00, 0x00]"
  by (simp add: idam_field_bits_lit tobytes_eval)

lemma decode_sync_word: "decode_pair 0x44 0x89 = 0xA1"
  by (simp add: decode_eval)

lemma decode_words:
  "decode_pair 0x55 0x54 = 0xFE" "decode_pair 0x55 0x45 = 0xFB"
  "decode_pair 0x00 0x00 = 0x00" "decode_pair 0x00 0x01 = 0x01"
  by (simp_all add: decode_eval)

lemma decode_idam_field: "decode (tobytes idam_field_bits) =
   [0xA1, 0xA1, 0xA1, 0xFE, 0x00, 0x00, 0x01, 0x00, 0x00, 0x00]"
  by (simp add: tobytes_idam_field decode_sync_word decode_words)

lemma length_example_bits:
  "length idam_field_bits = 160" "length dam_mark_bits = 64" "length far_bits = 4144"
  by (simp_all add: far_bits_def idam_field_bits_lit dam_mark_bits_lit)

lemma slice_append_left:
  "0 \<le> s \<Longrightarrow> e \<le> int (length xs) \<Longrightarrow> py_slice (xs @ ys) s e = py_slice xs s e"
  by (simp add: py_slice_def)

lemma slice_append_right:
  "int (length xs) \<le> s \<Longrightarrow> py_slice (xs @ ys) s e = py_slice ys (s - int (length xs)) (e - int (length xs))"
  by (simp add: py_slice_def nat_diff_distrib)

lemma slice_all: "py_slice xs 0 (int (length xs)) = xs"
  by (simp add: py_slice_def)

lemma mark_of_idam_field: "read_mark idam_field_bits 0 = Inr mark_IDAM"
  by (simp add: read_mark_def py_slice_def idam_field_bits_lit tobytes_eval decode_words mark_IDAM_def)

lemma mark_of_dam_mark: "read_mark dam_mark_bits 0 = Inr mark_DAM"
  by (simp add: read_mark_def py_slice_def dam_mark_bits_lit tobytes_eval decode_words mark_DAM_def)

lemma read_mark_append_left:
  "0 \<le> offs \<Longrightarrow> offs + 64 \<le> int (length xs) \<Longrightarrow> read_mark (xs @ ys) offs = read_mark xs offs"
  by (simp add: read_mark_def slice_append_left)

lemma read_mark_append_right:
  "int (length xs) \<le> offs \<Longrightarrow> read_mark (xs @ ys) offs = read_mark ys (offs - int (length xs))"
  by (simp add: read_mark_def slice_append_right algebra_simps)

lemma far_marks: "read_mark far_bits 0 = Inr mark_IDAM" "read_mark far_bits 2000 = Inr mark_DAM"
proof -
  show "read_mark far_bits 0 = Inr mark_IDAM"
    unfolding far_bits_def
    by (simp add: read_mark_append_left length_example_bits mark_of_idam_field)
  have "read_mark far_bits 2000 = read_mark (dam_mark_bits @ replicate 2080 False) 0"
    unfolding far_bits_def
    by (simp add: read_mark_append_right length_example_bits)
  then show "read_mark far_bits 2000 = Inr mark_DAM"
    by (simp add: read_mark_append_left length_example_bits mark_of_dam_mark)
qed

lemma marks_distinct:
  "mark_IDAM \<noteq> mark_DAM" "mark_IDAM \<noteq> mark_DDAM" "mark_DAM \<noteq> mark_IDAM" "mark_DAM \<noteq> mark_IAM"
  by (simp_all add: mark_IDAM_def mark_DAM_def mark_DDAM_def mark_IAM_def)

lemma idam_step_idam_field:
  "idam_step idam_field_bits 0 (areas, None) = Inr (areas, Some example_idam)"
  using slice_all [of idam_field_bits]
  by (simp add: idam_step_def Let_def length_example_bits decode_idam_field unpack_4x4B2x_def
      example_idam_def)

lemma scan_idam_field: "scan idam_field_bits False = Inr ([Area_IDAM example_idam], False)"
proof -
  have 1: "itersearch iam_sync idam_field_bits 0 = []"
    by (simp add: idam_field_bits_lit iam_sync_lit itersearch_eval del: itersearch.simps(2))
  have 2: "itersearch sync idam_field_bits 0 = [0]"
    by (simp add: idam_field_bits_lit sync_lit itersearch_eval del: itersearch.simps(2))
  have 3: "sync_step idam_field_bits 0 ([], None) = Inr ([], Some example_idam)"
    by (simp add: sync_step_def length_example_bits mark_of_idam_field idam_step_idam_field)
  show ?thesis
    by (simp add: scan_def 1 2 3)
qed

lemma scan_dam_mark:
  "scan dam_mark_bits False = Inr ([Area_DAM (new_DAM 0 64 0xffff mark_DAM [])], False)"
proof -
  have 1: "itersearch iam_sync dam_mark_bits 0 = []"
    by (simp add: dam_mark_bits_lit iam_sync_lit itersearch_eval del: itersearch.simps(2))
  have 2: "itersearch sync dam_mark_bits 0 = [0]"
    by (simp add: dam_mark_bits_lit sync_lit itersearch_eval del: itersearch.simps(2))
  have 3: "sync_step dam_mark_bits 0 ([], None)
      = Inr ([Area_DAM (new_DAM 0 64 0xffff mark_DAM [])], None)"
    by (simp add: sync_step_def length_example_bits mark_of_dam_mark marks_distinct dam_step_def)
  show ?thesis
    by (simp add: scan_def 1 2 3)
qed

lemma example_idam_simps:
  "idam_start example_idam = 0" "idam_end example_idam = 160" "idam_n example_idam = 0"
  by (simp_all add: example_idam_def new_IDAM_def)

lemma idam_step_far: "idam_step far_bits 0 (areas, None) = Inr (areas, Some example_idam)"
proof -
  have "py_slice far_bits 0 160 = idam_field_bits"
    unfolding far_bits_def using slice_all [of idam_field_bits]
    by (simp add: slice_append_left length_example_bits)
  then show ?thesis
    by (simp add: idam_step_def Let_def length_example_bits decode_idam_field unpack_4x4B2x_def
        example_idam_def)
qed

lemma dam_step_far:
  "dam_step far_bits 2000 mark_DAM (areas, Some example_idam)
     = (areas @ [Area_Sector (new_Sector example_idam far_dam)], None)"
  by (simp add: dam_step_def example_idam_simps length_example_bits far_dam_def Let_def)

lemma scan_far: "scan far_bits False = Inr ([Area_Sector (new_Sector example_idam far_dam)], False)"
proof -
  have 1: "sync_step far_bits 0 ([], None) = Inr ([], Some example_idam)"
    by (simp add: sync_step_def length_example_bits far_marks idam_step_far)
  have 2: "sync_step far_bits 2000 ([], Some example_idam)
      = Inr ([Area_Sector (new_Sector example_idam far_dam)], None)"
    by (simp add: sync_step_def length_example_bits far_marks marks_distinct dam_step_far)
  show ?thesis
    by (simp add: scan_def its_iam_far its_sync_far 1 2)
qed

lemma dam_step_no_pending:
  "dam_step bits offs m (areas, None)
     = (areas @ [Area_DAM (new_DAM offs (offs + 4 * 16) 0xffff m [])], None)"
  by (simp add: dam_step_def)

lemma dam_step_pending:
  "idam_start i \<le> offs \<Longrightarrow> idam_end i = idam_start i + 10 * 16 \<Longrightarrow>
     dam_step bits offs m (areas, Some i)
       = (let e = offs + (4 + int (push_bit (idam_n i) 128) + 2) * 16 in
          if int (length bits) < e then (areas, Some i)
          else (let b = decode (tobytes (py_slice bits offs e))
                in (areas @ [Area_Sector (new_Sector i
                      (new_DAM offs e (crc16 b) m (drop 4 (take (length b - 2) b))))], None)))"
  by (simp add: dam_step_def Let_def)

lemma tobytes_8: "length xs = 8 \<Longrightarrow> tobytes (xs @ ys) = byte_of_bits xs # tobytes ys"
  by (subst tobytes.simps) auto

lemma tobytes_Nil: "tobytes [] = []"
  by (subst tobytes.simps) simp

lemma byte_of_zero_bits: "byte_of_bits (replicate 8 False) = 0"
  by (simp add: byte_of_bits_def replicate_numeral)

lemma tobytes_zero_bits: "tobytes (replicate (8 * k) False) = replicate k 0"
proof (induction k)
  case 0
  show ?case by (simp add: tobytes_Nil)
next
  case (Suc k)
  have "replicate (8 * Suc k) False = replicate 8 False @ replicate (8 * k) False"
    by (simp add: replicate_add [symmetric])
  then show ?case
    by (simp add: tobytes_8 byte_of_zero_bits Suc.IH)
qed

lemma decode_zero_bytes: "decode (replicate (2 * k) 0) = replicate k 0"
proof (induction k)
  case 0
  show ?case by simp
next
  case (Suc k)
  have "replicate (2 * Suc k) (0::byte) = 0 # 0 # replicate (2 * k) 0"
    by simp
  then show ?case
    using decode_words(3) by (simp add: Suc.IH)
qed

lemma tobytes_dam_mark: "tobytes (dam_mark_bits @ ys) =
   [0x44, 0x89, 0x44, 0x89, 0x44, 0x89, 0x55, 0x45] @ tobytes ys"
proof -
  have t8: "tobytes (b0 # b1 # b2 # b3 # b4 # b5 # b6 # b7 # zs)
      = byte_of_bits [b0, b1, b2, b3, b4, b5, b6, b7] # tobytes zs" for b0 b1 b2 b3 b4 b5 b6 b7 zs
    using tobytes_8 [of "[b0, b1, b2, b3, b4, b5, b6, b7]" zs] by simp
  show ?thesis
    by (simp add: dam_mark_bits_lit t8 byte_of_bits_def)
qed

lemma far_field_bytes:
  "decode (tobytes (py_slice far_bits 2000 4144)) = [0xA1, 0xA1, 0xA1, 0xFB] @ replicate 130 0"
proof -
  have "py_slice far_bits 2000 4144 = dam_mark_bits @ replicate 2080 False"
    unfolding far_bits_def
    by (simp add: slice_append_right length_example_bits)
       (simp add: py_slice_def length_example_bits)
  moreover have "tobytes (replicate 2080 False) = replicate 260 0"
    using tobytes_zero_bits [of 260] by simp
  moreover have "decode (replicate 260 0) = replicate 130 0"
    using decode_zero_bytes [of 130] by simp
  ultimately show ?thesis
    by (simp add: tobytes_dam_mark decode_sync_word decode_words)
qed

lemma far_dam_explicit:
  "far_dam = new_DAM 2000 4144 (crc16 ([0xA1, 0xA1, 0xA1, 0xFB] @ replicate 130 0)) mark_DAM
               (replicate 128 0)"
  by (simp add: far_dam_def far_field_bytes Let_def)

theorem decode_raw_adds_only_iam_and_sector_witness:
  "scan idam_field_bits False = Inr ([Area_IDAM example_idam], False)
   \<and> decode_raw (IBM_MFM_Formatted 0 0) idam_field_bits [160] = Inr (IBM_MFM_Formatted 0 0)
   \<and> scan dam_mark_bits False = Inr ([Area_DAM (new_DAM 0 64 0xffff mark_DAM [])], False)
   \<and> decode_raw (IBM_MFM_Formatted 0 0) dam_mark_bits [64] = Inr (IBM_MFM_Formatted 0 0)"
proof -
  let ?t = "IBM_MFM_Formatted 0 0"
  have h: "has_iam ?t = False" and u: "?t\<lparr>has_iam := False\<rparr> = ?t"
    by (simp_all add: IBM_MFM_Formatted_def)
  have 1: "decode_raw ?t idam_field_bits [160] = Inr ?t"
  proof -
    obtain t' where t': "decode_raw ?t idam_field_bits [160] = Inr t'"
      using decode_raw_ok [of "[160]" ?t idam_field_bits] by auto
    from decode_raw_adds_only_iam_and_sector [of example_idam ?t far_dam idam_field_bits "[160]" t'] t'
    obtain areas hi areas' where sc: "scan idam_field_bits (has_iam ?t) = Inr (areas, hi)"
      and ta: "track_areas areas [160] = Inr areas'"
      and m: "t' = merge_areas (filter is_iam_or_sector areas') (?t\<lparr>has_iam := hi\<rparr>)"
      by blast
    from sc have a: "areas = [Area_IDAM example_idam]" "hi = False"
      by (simp_all add: h scan_idam_field)
    with ta have "areas' = [Area_IDAM example_idam]"
      by (auto simp: track_areas_single_revolution example_idam_simps delta_0)
    with m a have "t' = ?t"
      by (simp add: is_iam_or_sector_def u)
    with t' show ?thesis by simp
  qed
  have 2: "decode_raw ?t dam_mark_bits [64] = Inr ?t"
  proof -
    obtain t' where t': "decode_raw ?t dam_mark_bits [64] = Inr t'"
      using decode_raw_ok [of "[64]" ?t dam_mark_bits] by auto
    from decode_raw_adds_only_iam_and_sector [of example_idam ?t far_dam dam_mark_bits "[64]" t'] t'
    obtain areas hi areas' where sc: "scan dam_mark_bits (has_iam ?t) = Inr (areas, hi)"
      and ta: "track_areas areas [64] = Inr areas'"
      and m: "t' = merge_areas (filter is_iam_or_sector areas') (?t\<lparr>has_iam := hi\<rparr>)"
      by blast
    from sc have a: "areas = [Area_DAM (new_DAM 0 64 0xffff mark_DAM [])]" "hi = False"
      by (simp_all add: h scan_dam_mark)
    with ta have "areas' = [Area_DAM (new_DAM 0 64 0xffff mark_DAM [])]"
      by (auto simp: track_areas_single_revolution new_DAM_def delta_0)
    with m a have "t' = ?t"
      by (simp add: is_iam_or_sector_def u)
    with t' show ?thesis by simp
  qed
  from 1 2 scan_idam_field scan_dam_mark show ?thesis by simp
qed

subsection \<open>Pairing a data mark with the pending ID field\<close>

text \<open>
  Claim C4. The code does not do what the claim says. On \<open>far_bits\<close> the ID field
  ends at bit cell 160 and the data mark is found at bit cell 2000, which is 1840 bit
  cells later; the scan pairs them into a sector. The test on line 76 is
  \<^verbatim>\<open>idam.end - offs > 1000\<close>; the offsets come in ascending order, so \<^verbatim>\<open>offs\<close> is past
  the start of the pending ID field, the difference is below 160, and the test never
  succeeds (lemma \<open>dam_step_pending\<close>). A standalone data field with CRC \<^verbatim>\<open>0xffff\<close>,
  64 bit cells long, is what the scan gives when no ID field is pending, as on
  \<open>dam_mark_bits\<close>.
\<close>

theorem far_data_mark_is_paired:
  "scan far_bits False = Inr ([Area_Sector (new_Sector example_idam far_dam)], False)
   \<and> idam_end example_idam = 160 \<and> dam_start far_dam = 2000
   \<and> dam_start far_dam - idam_end example_idam > 1000
   \<and> scan dam_mark_bits False = Inr ([Area_DAM (new_DAM 0 (4 * 16) 0xffff mark_DAM [])], False)"
  by (simp add: scan_far scan_dam_mark example_idam_simps far_dam_def Let_def new_DAM_def)

subsection \<open>verify\_track\<close>

text \<open>
  With the timing attributes set, \<^verbatim>\<open>verify_track\<close> is the decoding into the throw-away
  track followed by the two tests.
\<close>

lemma verify_track_unfold:
  assumes "clock t \<noteq> None" and "time_per_rev t \<noteq> None"
  shows "verify_track t bits revolutions
       = (case decode_raw_formatted (readback_init t) bits revolutions of
            Inl e \<Rightarrow> Inl e
          | Inr rb \<Rightarrow> Inr (nr_missing rb = 0 \<and> sectors t = sectors rb))"
proof -
  have init: "(IBM_MFM_Formatted (cyl t) (head t))
        \<lparr>clock := clock t, time_per_rev := time_per_rev t,
         iams := [] @ iams t,
         sectors := [] @ map (\<lambda>x. new_Sector ((idam x)\<lparr>idam_crc := 0xffff\<rparr>)
                                   ((dam x)\<lparr>dam_crc := 0xffff\<rparr>)) (sectors t)\<rparr>
      = readback_init t"
    by (simp add: readback_init_def IBM_MFM_Formatted_def invalidated_def [abs_def])
  show ?thesis
    using assms init
    by (auto simp: verify_track_def Let_def IBM_MFM_Formatted_def split: sum.splits)
qed

text \<open>
  The first \<^verbatim>\<open>next(index)\<close> of \<^verbatim>\<open>decode_raw\<close> (line 97) is outside the \<^verbatim>\<open>try\<close> block
  that guards the later ones: with an empty list of revolutions \<^verbatim>\<open>verify_track\<close> raises
  \<^verbatim>\<open>StopIteration\<close>, whatever the bit sequence.
\<close>

lemma verify_track_no_revolution:
  assumes "clock t \<noteq> None" and "time_per_rev t \<noteq> None"
  shows "verify_track t bits [] = Inl StopIteration"
proof -
  obtain areas hi where s: "scan bits False = Inr (areas, hi)"
    using scan_ok [of bits False] by blast
  have "decode_raw_formatted (readback_init t) bits [] = Inl StopIteration"
    using s by (simp add: decode_raw_formatted_def decode_raw_def track_areas_def readback_init_def)
  then show ?thesis
    by (simp add: verify_track_unfold [OF assms])
qed

text \<open>
  Claim C8. As stated (\<^verbatim>\<open>verify_track\<close> always returns a boolean and never raises) the
  claim fails: \<^verbatim>\<open>verify_track\<close> raises \<^verbatim>\<open>StopIteration\<close> for a flux with no revolution and
  \<^verbatim>\<open>AttributeError\<close> for a track whose timing attributes were never set
  (\<open>verify_track_raises_counterexample\<close>). What holds: for a track whose timing
  attributes are set and a flux that spans at least one revolution, \<^verbatim>\<open>verify_track\<close>
  returns a boolean; decoding into the throw-away track \<open>readback_init t\<close> returns a
  track \<open>rb\<close>, and the result is true exactly when no sector of \<open>rb\<close> is missing and
  the sector lists of \<open>t\<close> and \<open>rb\<close> are equal.
\<close>

theorem verify_track_returns:
  assumes "clock t \<noteq> None" and "time_per_rev t \<noteq> None" and "revolutions \<noteq> []"
  shows "\<exists>rb. decode_raw_formatted (readback_init t) bits revolutions = Inr rb
            \<and> verify_track t bits revolutions = Inr (nr_missing rb = 0 \<and> sectors t = sectors rb)"
proof -
  obtain rb where rb: "decode_raw_formatted (readback_init t) bits revolutions = Inr rb"
    using decode_raw_formatted_ok [OF assms(3)] by blast
  then have "verify_track t bits revolutions = Inr (nr_missing rb = 0 \<and> sectors t = sectors rb)"
    by (simp add: verify_track_unfold [OF assms(1,2)])
  with rb show ?thesis by blast
qed

theorem verify_track_returns_witness:
  "clock (timed_track t_ok) \<noteq> None \<and> time_per_rev (timed_track t_ok) \<noteq> None
   \<and> [4144 :: int] \<noteq> []
   \<and> verify_track (timed_track t_ok) far_bits [4144] = Inr False
   \<and> verify_track (timed_track (IBM_MFM_Formatted 0 0)) far_bits [4144] = Inr True"
proof -
  have c: "clock (timed_track t) \<noteq> None" "time_per_rev (timed_track t) \<noteq> None" for t
    by (simp_all add: timed_track_def)
  have r: "[4144 :: int] \<noteq> []"
    by simp
  have m: "nr_missing (timed_track t_ok) \<noteq> 0"
    by (simp add: nr_missing_def timed_track_def t_ok_def example_sector_start_crc)
  from verify_track_returns [OF c r, of t_ok far_bits]
  obtain rb where "verify_track (timed_track t_ok) far_bits [4144]
      = Inr (nr_missing rb = 0 \<and> sectors (timed_track t_ok) = sectors rb)"
    by blast
  with m have 1: "verify_track (timed_track t_ok) far_bits [4144] = Inr False"
    by (auto simp: nr_missing_def)
  from verify_track_returns [OF c r, of "IBM_MFM_Formatted 0 0" far_bits]
  obtain rb' where rb': "decode_raw_formatted (readback_init (timed_track (IBM_MFM_Formatted 0 0)))
        far_bits [4144] = Inr rb'"
    and v: "verify_track (timed_track (IBM_MFM_Formatted 0 0)) far_bits [4144]
      = Inr (nr_missing rb' = 0 \<and> sectors (timed_track (IBM_MFM_Formatted 0 0)) = sectors rb')"
    by blast
  from rb' have "length (sectors rb')
      = length (sectors (readback_init (timed_track (IBM_MFM_Formatted 0 0))))"
    by (auto simp: decode_raw_formatted_def length_match_raw split: sum.splits)
  then have "sectors rb' = []"
    by (simp add: readback_init_def timed_track_def IBM_MFM_Formatted_def)
  with v have 2: "verify_track (timed_track (IBM_MFM_Formatted 0 0)) far_bits [4144] = Inr True"
    by (simp add: nr_missing_def timed_track_def IBM_MFM_Formatted_def)
  from c r 1 2 show ?thesis by simp
qed

theorem verify_track_raises_counterexample:
  "verify_track (timed_track t_ok) far_bits [] = Inl StopIteration
   \<and> verify_track t_ok far_bits [4144] = Inl AttributeError"
proof -
  have c: "clock (timed_track t_ok) \<noteq> None" "time_per_rev (timed_track t_ok) \<noteq> None"
    by (simp_all add: timed_track_def)
  have "verify_track t_ok far_bits [4144] = Inl AttributeError"
    by (simp add: verify_track_def t_ok_def IBM_MFM_Formatted_def)
  with verify_track_no_revolution [OF c] show ?thesis
    by simp
qed

text \<open>
  The result is true only for a track whose own sectors all have CRC zero, since the
  lists are compared by value.
\<close>

lemma verify_track_true_needs_zero_crcs:
  assumes "verify_track t bits revolutions = Inr True"
  shows "nr_missing t = 0"
proof -
  from assms have c: "clock t \<noteq> None" "time_per_rev t \<noteq> None"
    by (auto simp: verify_track_def Let_def split: if_splits)
  from assms obtain rb where "nr_missing rb = 0 \<and> sectors t = sectors rb"
    by (auto simp: verify_track_unfold [OF c] split: sum.splits)
  then show ?thesis
    by (simp add: nr_missing_def)
qed

end
